theory Spec2Isabelle
  imports Main
begin

section \<open>Characters and character classes\<close>

text \<open>
  A JavaScript string is a sequence of UTF-16 code units. The model uses \<^typ>\<open>string\<close>,
  so it covers the code units below 256; every character the normalizer's patterns name is
  in that range. Ranges such as \<^verbatim>\<open>A-Z\<close> compare code units.
\<close>

definition in_range :: "char \<Rightarrow> char \<Rightarrow> char \<Rightarrow> bool" where
  "in_range lo hi c = ((of_char lo :: nat) \<le> of_char c \<and> (of_char c :: nat) \<le> of_char hi)"

text \<open>\<^verbatim>\<open>\d\<close> is \<^verbatim>\<open>[0-9]\<close>.\<close>

definition is_digit :: "char \<Rightarrow> bool" where
  "is_digit c = in_range CHR ''0'' CHR ''9'' c"

text \<open>
  \<^verbatim>\<open>\s\<close>: tab, line feed, vertical tab, form feed, carriage return, space and the
  no-break space (the white space and line terminators of ECMAScript below 256).
\<close>

definition is_space :: "char \<Rightarrow> bool" where
  "is_space c = (in_range (CHR 0x09) (CHR 0x0D) c \<or> c = CHR 0x20 \<or> c = CHR 0xA0)"

datatype citem = Rng char char | Lit char | Digit | Space

fun in_item :: "citem \<Rightarrow> char \<Rightarrow> bool" where
  "in_item (Rng lo hi) c = in_range lo hi c"
| "in_item (Lit x) c = (c = x)"
| "in_item Digit c = is_digit c"
| "in_item Space c = is_space c"

definition in_class :: "citem list \<Rightarrow> char \<Rightarrow> bool" where
  "in_class cs c = list_ex (\<lambda>i. in_item i c) cs"

text \<open>\<^verbatim>\<open>\w\<close>, which decides the word boundary \<^verbatim>\<open>\b\<close>.\<close>

definition is_word :: "char \<Rightarrow> bool" where
  "is_word c = in_class [Rng CHR ''a'' CHR ''z'', Rng CHR ''A'' CHR ''Z'', Rng CHR ''0'' CHR ''9'', Lit CHR ''_''] c"

text \<open>
  Comparing two code units bit by bit, most significant bit first. It is used to evaluate
  \<^const>\<open>in_range\<close> on concrete characters.
\<close>

fun bval :: "bool list \<Rightarrow> nat" where
  "bval [] = 0"
| "bval (x # xs) = of_bool x * 2 ^ length xs + bval xs"

fun ble :: "bool list \<Rightarrow> bool list \<Rightarrow> bool" where
  "ble (x # xs) (y # ys) = (if x then y \<and> ble xs ys else y \<or> ble xs ys)"
| "ble _ _ = True"

fun cle :: "char \<Rightarrow> char \<Rightarrow> bool" where
  "cle (Char a0 a1 a2 a3 a4 a5 a6 a7) (Char b0 b1 b2 b3 b4 b5 b6 b7) =
     ble [a7, a6, a5, a4, a3, a2, a1, a0] [b7, b6, b5, b4, b3, b2, b1, b0]"

section \<open>Regular expressions and the backtracking matcher\<close>

text \<open>
  The constructs the patterns of \<^verbatim>\<open>normalizeErrorPattern\<close> use: literal characters,
  classes and negated classes, sequence, alternation, greedy repetition, capturing groups,
  the word boundary, the end of input and the two lookaheads. \<open>Rep n None a\<close> is
  \<^verbatim>\<open>a{n,}\<close> and \<open>Rep n (Some k) a\<close> is \<^verbatim>\<open>a{n,n+k}\<close>.
\<close>

datatype re =
    Eps
  | Chr char
  | Cls "citem list"
  | NCls "citem list"
  | Seq re re
  | Alt re re
  | Rep nat "nat option" re
  | Grp nat re
  | WordB
  | Eos
  | Ahead re
  | NAhead re

text \<open>
  A matcher state: the input to the left of the current position (reversed, nearest
  character first), the input still to read, and the captures made so far.
\<close>

type_synonym mstate = "string \<times> string \<times> (nat \<times> string) list"

definition progress :: "mstate \<Rightarrow> mstate \<Rightarrow> bool" where
  "progress x y = (length (fst (snd y)) < length (fst (snd x)))"

definition at_word :: "string \<Rightarrow> bool" where
  "at_word s = (case s of [] \<Rightarrow> False | c # _ \<Rightarrow> is_word c)"

definition captured :: "string \<Rightarrow> string \<Rightarrow> string" where
  "captured l l' = rev (take (length l' - length l) l')"

fun re_size :: "re \<Rightarrow> nat" where
  "re_size (Seq a b) = Suc (re_size a + re_size b)"
| "re_size (Alt a b) = Suc (re_size a + re_size b)"
| "re_size (Rep n m a) = Suc (re_size a + n + (case m of None \<Rightarrow> 0 | Some k \<Rightarrow> k))"
| "re_size (Grp n a) = Suc (re_size a)"
| "re_size (Ahead a) = Suc (re_size a)"
| "re_size (NAhead a) = Suc (re_size a)"
| "re_size _ = 0"

text \<open>
  \<open>ms a x\<close> lists the states in which a match of \<open>a\<close> started in \<open>x\<close> can end, in the order
  a backtracking matcher tries them: the head is the match the engine reports. A greedy
  repetition tries one more iteration before it tries to stop, and (as ECMAScript's
  RepeatMatcher does) rejects an optional iteration that consumed nothing.
\<close>

function ms :: "re \<Rightarrow> mstate \<Rightarrow> mstate list" where
  "ms Eps x = [x]"
| "ms (Chr c) (l, r, g) =
     (case r of [] \<Rightarrow> [] | x # r' \<Rightarrow> if x = c then [(x # l, r', g)] else [])"
| "ms (Cls cs) (l, r, g) =
     (case r of [] \<Rightarrow> [] | x # r' \<Rightarrow> if in_class cs x then [(x # l, r', g)] else [])"
| "ms (NCls cs) (l, r, g) =
     (case r of [] \<Rightarrow> [] | x # r' \<Rightarrow> if in_class cs x then [] else [(x # l, r', g)])"
| "ms (Seq a b) x = concat (map (ms b) (ms a x))"
| "ms (Alt a b) x = ms a x @ ms b x"
| "ms (Rep (Suc n) m a) x = concat (map (ms (Rep n m a)) (ms a x))"
| "ms (Rep 0 (Some 0) a) x = [x]"
| "ms (Rep 0 (Some (Suc k)) a) x =
     concat (map (ms (Rep 0 (Some k) a)) (filter (progress x) (ms a x))) @ [x]"
| "ms (Rep 0 None a) x =
     concat (map (ms (Rep 0 None a)) (filter (progress x) (ms a x))) @ [x]"
| "ms (Grp n a) (l, r, g) =
     map (\<lambda>(l', r', g'). (l', r', (n, captured l l') # g')) (ms a (l, r, g))"
| "ms WordB (l, r, g) = (if at_word l \<noteq> at_word r then [(l, r, g)] else [])"
| "ms Eos (l, r, g) = (if r = [] then [(l, r, g)] else [])"
| "ms (Ahead a) (l, r, g) =
     (case ms a (l, r, g) of [] \<Rightarrow> [] | (l', r', g') # _ \<Rightarrow> [(l, r, g')])"
| "ms (NAhead a) x = (if ms a x = [] then [x] else [])"
  by pat_completeness auto
termination
  by (relation "measures [\<lambda>(a, x). re_size a, \<lambda>(a, x). length (fst (snd x))]")
     (auto simp: progress_def)

section \<open>Global replacement\<close>

text \<open>
  A replacement string is a list of literal pieces and group references
  (\<^verbatim>\<open>$1\<close>, \<^verbatim>\<open>$2\<close>); a group that did not take part yields the empty string.
\<close>

datatype titem = TLit string | TRef nat

fun expand :: "titem list \<Rightarrow> (nat \<times> string) list \<Rightarrow> string" where
  "expand [] g = []"
| "expand (TLit s # t) g = s @ expand t g"
| "expand (TRef n # t) g = (case map_of g n of None \<Rightarrow> [] | Some w \<Rightarrow> w) @ expand t g"

text \<open>
  \<^verbatim>\<open>String.prototype.replace\<close> with a global pattern: scan from the left; at a match,
  emit the replacement and go on behind it; where nothing matches, copy one character.
  After an empty match the scan steps over one character, which is copied.
\<close>

function replace_from :: "re \<Rightarrow> titem list \<Rightarrow> string \<Rightarrow> string \<Rightarrow> string" where
  "replace_from e t l r =
     (case ms e (l, r, []) of
        [] \<Rightarrow> (case r of [] \<Rightarrow> [] | c # r' \<Rightarrow> c # replace_from e t (c # l) r')
      | (l', r', g) # _ \<Rightarrow>
          expand t g @
          (if length r' < length r then replace_from e t l' r'
           else (case r of [] \<Rightarrow> [] | c # r'' \<Rightarrow> c # replace_from e t (c # l) r'')))"
  by pat_completeness auto
termination
  by (relation "measure (\<lambda>(e, t, l, r). length r)") auto

definition replace :: "re \<Rightarrow> titem list \<Rightarrow> string \<Rightarrow> string" where
  "replace e t s = replace_from e t [] s"

section \<open>The patterns of normalizeErrorPattern\<close>

fun cat :: "re list \<Rightarrow> re" where
  "cat [] = Eps"
| "cat [a] = a"
| "cat (a # as) = Seq a (cat as)"

fun alts :: "re list \<Rightarrow> re" where
  "alts [] = Cls []"
| "alts [a] = a"
| "alts (a # as) = Alt a (alts as)"

definition str :: "string \<Rightarrow> re" where
  "str s = cat (map Chr s)"

definition many1 :: "re \<Rightarrow> re" where "many1 a = Rep 1 None a"
definition many :: "re \<Rightarrow> re" where "many a = Rep 0 None a"
definition optional :: "re \<Rightarrow> re" where "optional a = Rep 0 (Some 1) a"
definition exactly :: "nat \<Rightarrow> re \<Rightarrow> re" where "exactly n a = Rep n (Some 0) a"
definition between :: "nat \<Rightarrow> nat \<Rightarrow> re \<Rightarrow> re" where "between n m a = Rep n (Some (m - n)) a"
definition atleast :: "nat \<Rightarrow> re \<Rightarrow> re" where "atleast n a = Rep n None a"

definition dquote :: char where "dquote = CHR 0x22"
definition backslash :: char where "backslash = CHR 0x5C"

definition digit :: re where "digit = Cls [Digit]"
definition space :: re where "space = Cls [Space]"

text \<open>\<^verbatim>\<open>[0-9a-fA-F]\<close>, \<^verbatim>\<open>[A-Za-z0-9]\<close> and the characters that end a file path,
  \<^verbatim>\<open>[^\s<>"|?*]\<close>.\<close>

definition hex :: "citem list" where
  "hex = [Rng CHR ''0'' CHR ''9'', Rng CHR ''a'' CHR ''f'', Rng CHR ''A'' CHR ''F'']"

definition alnum :: "citem list" where
  "alnum = [Rng CHR ''A'' CHR ''Z'', Rng CHR ''a'' CHR ''z'', Rng CHR ''0'' CHR ''9'']"

definition path_stop :: "citem list" where
  "path_stop = [Space, Lit CHR ''<'', Lit CHR ''>'', Lit dquote, Lit CHR ''|'', Lit CHR ''?'', Lit CHR ''*'']"

text \<open>The common head of the query-parameter patterns, \<^verbatim>\<open>([?&])([a-zA-Z_]+)=\<close>.\<close>

definition qkey :: re where
  "qkey = cat [Grp 1 (Cls [Lit CHR ''?'', Lit CHR ''&'']),
               Grp 2 (many1 (Cls [Rng CHR ''a'' CHR ''z'', Rng CHR ''A'' CHR ''Z'', Lit CHR ''_''])),
               Chr CHR ''='']"

text \<open>The value boundary \<^verbatim>\<open>(?=[&\s]|$)\<close>.\<close>

definition vend :: re where
  "vend = Ahead (Alt (Cls [Lit CHR ''&'', Space]) Eos)"

text \<open>Pattern 1: \<^verbatim>\<open>/\((\d+)\)/g\<close> and \<^verbatim>\<open>/\[(\d+)\]/g\<close>.\<close>

definition p_paren_index :: re where
  "p_paren_index = cat [Chr CHR ''('', Grp 1 (many1 digit), Chr CHR '')'']"

definition p_bracket_index :: re where
  "p_bracket_index = cat [Chr CHR ''['', Grp 1 (many1 digit), Chr CHR '']'']"

text \<open>Pattern 2, the HTTP date:
  \<^verbatim>\<open>/(?:Mon|Tue|Wed|Thu|Fri|Sat|Sun),\s+\d{1,2}\s+(?:Jan|Feb|Mar|Apr|May|Jun|Jul|Aug|Sep|Oct|Nov|Dec)\s+\d{4}\s+\d{2}:\d{2}:\d{2}\s+(?:GMT|UTC|EST|EDT|PST|PDT|[A-Z]{2,4})\b/g\<close>.\<close>

definition p_http_date :: re where
  "p_http_date =
     cat [alts (map str [''Mon'', ''Tue'', ''Wed'', ''Thu'', ''Fri'', ''Sat'', ''Sun'']), Chr CHR '','',
          many1 space, between 1 2 digit, many1 space,
          alts (map str [''Jan'', ''Feb'', ''Mar'', ''Apr'', ''May'', ''Jun'',
                         ''Jul'', ''Aug'', ''Sep'', ''Oct'', ''Nov'', ''Dec'']),
          many1 space, exactly 4 digit, many1 space,
          exactly 2 digit, Chr CHR '':'', exactly 2 digit, Chr CHR '':'', exactly 2 digit, many1 space,
          alts (map str [''GMT'', ''UTC'', ''EST'', ''EDT'', ''PST'', ''PDT'']
                @ [between 2 4 (Cls [Rng CHR ''A'' CHR ''Z''])]),
          WordB]"

text \<open>ISO 8601:
  \<^verbatim>\<open>/\d{4}-\d{2}-\d{2}T\d{2}:\d{2}:\d{2}(?:\.\d+)?(?:Z|[+-]\d{2}:\d{2})?/g\<close>.\<close>

definition p_iso_date :: re where
  "p_iso_date =
     cat [exactly 4 digit, Chr CHR ''-'', exactly 2 digit, Chr CHR ''-'', exactly 2 digit, Chr CHR ''T'',
          exactly 2 digit, Chr CHR '':'', exactly 2 digit, Chr CHR '':'', exactly 2 digit,
          optional (Seq (Chr CHR ''.'') (many1 digit)),
          optional (Alt (Chr CHR ''Z'')
            (cat [Cls [Lit CHR ''+'', Lit CHR ''-''], exactly 2 digit, Chr CHR '':'', exactly 2 digit]))]"

text \<open>\<^verbatim>\<open>/\d{4}-\d{2}-\d{2}/g\<close> and \<^verbatim>\<open>/\d{2}\/\d{2}\/\d{4}/g\<close>.\<close>

definition p_dash_date :: re where
  "p_dash_date = cat [exactly 4 digit, Chr CHR ''-'', exactly 2 digit, Chr CHR ''-'', exactly 2 digit]"

definition p_slash_date :: re where
  "p_slash_date = cat [exactly 2 digit, Chr CHR ''/'', exactly 2 digit, Chr CHR ''/'', exactly 4 digit]"

text \<open>Pattern 3:
  \<^verbatim>\<open>/[0-9a-fA-F]{8}-[0-9a-fA-F]{4}-[0-9a-fA-F]{4}-[0-9a-fA-F]{4}-[0-9a-fA-F]{12}/g\<close>.\<close>

definition p_uuid :: re where
  "p_uuid = cat [exactly 8 (Cls hex), Chr CHR ''-'', exactly 4 (Cls hex), Chr CHR ''-'',
                 exactly 4 (Cls hex), Chr CHR ''-'', exactly 4 (Cls hex), Chr CHR ''-'',
                 exactly 12 (Cls hex)]"

text \<open>Pattern 3.5: \<^verbatim>\<open>/"id"\s*:\s*"[A-Za-z0-9]{10,}"/g\<close>, replaced by
  \<^verbatim>\<open>"id":"[JSON_ID]"\<close>.\<close>

definition p_json_id :: re where
  "p_json_id = cat [Chr dquote, str ''id'', Chr dquote, many space, Chr CHR '':'', many space,
                    Chr dquote, atleast 10 (Cls alnum), Chr dquote]"

definition t_json_id :: "titem list" where
  "t_json_id = [TLit ([dquote] @ ''id'' @ [dquote] @ '':'' @ [dquote] @ ''[JSON_ID]'' @ [dquote])]"

text \<open>Pattern 4: \<^verbatim>\<open>/[A-Z]+-\d+/g\<close>. Pattern 5: \<^verbatim>\<open>/\b\d{6,}\b/g\<close>.\<close>

definition p_case_id :: re where
  "p_case_id = cat [many1 (Cls [Rng CHR ''A'' CHR ''Z'']), Chr CHR ''-'', many1 digit]"

definition p_long_id :: re where
  "p_long_id = cat [WordB, atleast 6 digit, WordB]"

text \<open>Pattern 6: \<^verbatim>\<open>/\b[A-Za-z0-9._%+-]+@[A-Za-z0-9.-]+\.[A-Z|a-z]{2,}\b/g\<close>.\<close>

definition p_email :: re where
  "p_email =
     cat [WordB,
          many1 (Cls (alnum @ [Lit CHR ''.'', Lit CHR ''_'', Lit CHR ''%'', Lit CHR ''+'', Lit CHR ''-''])),
          Chr CHR ''@'', many1 (Cls (alnum @ [Lit CHR ''.'', Lit CHR ''-''])), Chr CHR ''.'',
          atleast 2 (Cls [Rng CHR ''A'' CHR ''Z'', Lit CHR ''|'', Rng CHR ''a'' CHR ''z'']), WordB]"

text \<open>Pattern 7: \<^verbatim>\<open>/\b\d{1,3}\.\d{1,3}\.\d{1,3}\.\d{1,3}\b/g\<close>.\<close>

definition p_ip :: re where
  "p_ip = cat [WordB, between 1 3 digit, Chr CHR ''.'', between 1 3 digit, Chr CHR ''.'',
               between 1 3 digit, Chr CHR ''.'', between 1 3 digit, WordB]"

text \<open>Pattern 8: \<^verbatim>\<open>/[A-Za-z]:\\[^\s<>"|?*]+/g\<close> and
  \<^verbatim>\<open>/\/[^\s<>"|?*]{2,}/g\<close>.\<close>

definition p_win_path :: re where
  "p_win_path = cat [Cls [Rng CHR ''A'' CHR ''Z'', Rng CHR ''a'' CHR ''z''], Chr CHR '':'', Chr backslash,
                     many1 (NCls path_stop)]"

definition p_unix_path :: re where
  "p_unix_path = cat [Chr CHR ''/'', atleast 2 (NCls path_stop)]"

text \<open>Pattern 9, in the order of the source:
  \<^verbatim>\<open>/\/[A-Za-z0-9_-]{15,}\*\//g\<close>,
  \<^verbatim>\<open>/([?&])([a-zA-Z_]+)=[A-Fa-f0-9]{20,}/g\<close>,
  \<^verbatim>\<open>/([?&])([a-zA-Z_]+)=[A-Za-z0-9]{15,}/g\<close>,
  \<^verbatim>\<open>/([?&])([a-zA-Z_]+)=\d{5,}/g\<close>,
  \<^verbatim>\<open>/([?&])([a-zA-Z_]+)=%[0-9A-Fa-f]{2,}[^\s&]*/g\<close>,
  \<^verbatim>\<open>/([?&])([a-zA-Z_]+)=(?!(?:true|false|1|0|yes|no)(?=[&\s]|$))([A-Za-z0-9_-]+)(?=[&\s]|$)/g\<close>,
  \<^verbatim>\<open>/(https?:\/\/[^\s?]+)\?[^\s]+/g\<close>.\<close>

definition p_session_id :: re where
  "p_session_id = cat [Chr CHR ''/'', atleast 15 (Cls (alnum @ [Lit CHR ''_'', Lit CHR ''-''])),
                       Chr CHR ''*'', Chr CHR ''/'']"

definition p_hex_id :: re where
  "p_hex_id = cat [qkey, atleast 20 (Cls [Rng CHR ''A'' CHR ''F'', Rng CHR ''a'' CHR ''f'', Rng CHR ''0'' CHR ''9''])]"

definition p_long_param :: re where
  "p_long_param = cat [qkey, atleast 15 (Cls alnum)]"

definition p_num_param :: re where
  "p_num_param = cat [qkey, atleast 5 digit]"

definition p_encoded_param :: re where
  "p_encoded_param = cat [qkey, Chr CHR ''%'', atleast 2 (Cls hex), many (NCls [Space, Lit CHR ''&''])]"

definition flags :: "string list" where
  "flags = [''true'', ''false'', ''1'', ''0'', ''yes'', ''no'']"

definition p_query_value :: re where
  "p_query_value =
     cat [qkey,
          NAhead (Seq (alts (map str flags)) vend),
          Grp 3 (many1 (Cls (alnum @ [Lit CHR ''_'', Lit CHR ''-'']))), vend]"

definition p_query_string :: re where
  "p_query_string =
     cat [Grp 1 (cat [str ''http'', optional (Chr CHR ''s''), str ''://'', many1 (NCls [Space, Lit CHR ''?''])]),
          Chr CHR ''?'', many1 (NCls [Space])]"

text \<open>Pattern 10: \<^verbatim>\<open>/[A-Za-z0-9_$\[\];.]+@[0-9a-fA-F]{4,}\b/g\<close>.
  Pattern 11: \<^verbatim>\<open>/\b0x[0-9a-fA-F]+\b/g\<close>.\<close>

definition p_object_ref :: re where
  "p_object_ref =
     cat [many1 (Cls (alnum @ [Lit CHR ''_'', Lit CHR ''$'', Lit CHR ''['', Lit CHR '']'', Lit CHR '';'', Lit CHR ''.''])),
          Chr CHR ''@'', atleast 4 (Cls hex), WordB]"

definition p_hex_literal :: re where
  "p_hex_literal = cat [WordB, str ''0x'', many1 (Cls hex), WordB]"

text \<open>The replacements, in the order in which the function applies them.\<close>

definition rules_head :: "(re \<times> titem list) list" where
  "rules_head =
    [(p_paren_index, [TLit ''(*)'']),
     (p_bracket_index, [TLit ''[*]'']),
     (p_http_date, [TLit ''[DATE]'']),
     (p_iso_date, [TLit ''[DATE]'']),
     (p_dash_date, [TLit ''[DATE]'']),
     (p_slash_date, [TLit ''[DATE]'']),
     (p_uuid, [TLit ''[UUID]'']),
     (p_json_id, t_json_id)]"

definition rules_mid :: "(re \<times> titem list) list" where
  "rules_mid =
    [(p_case_id, [TLit ''[CASE_ID]'']),
     (p_long_id, [TLit ''[ID]''])]"

definition rules_tail :: "(re \<times> titem list) list" where
  "rules_tail =
    [(p_email, [TLit ''[EMAIL]'']),
     (p_ip, [TLit ''[IP]'']),
     (p_win_path, [TLit ''[FILE_PATH]'']),
     (p_unix_path, [TLit ''[FILE_PATH]'']),
     (p_session_id, [TLit ''/[SESSION_ID]*/'']),
     (p_hex_id, [TRef 1, TRef 2, TLit ''=[HEX_ID]'']),
     (p_long_param, [TRef 1, TRef 2, TLit ''=[LONG_ID]'']),
     (p_num_param, [TRef 1, TRef 2, TLit ''=[NUM_PARAM]'']),
     (p_encoded_param, [TRef 1, TRef 2, TLit ''=[ENCODED_PARAM]'']),
     (p_query_value, [TRef 1, TRef 2, TLit ''=[QUERY_VALUE]'']),
     (p_query_string, [TRef 1, TLit ''?[QUERY_PARAMS]'']),
     (p_object_ref, [TLit ''[OBJECT_REF]'']),
     (p_hex_literal, [TLit ''[HEX]''])]"

definition rules :: "(re \<times> titem list) list" where
  "rules = rules_head @ rules_mid @ rules_tail"

definition apply_rules :: "(re \<times> titem list) list \<Rightarrow> string \<Rightarrow> string" where
  "apply_rules rs m = foldl (\<lambda>n (e, t). replace e t n) m rs"

text \<open>
  The parameter has type \<^verbatim>\<open>string | null | undefined\<close>. A falsy message (null, undefined,
  the empty string) returns \<^verbatim>\<open>message || ''\<close>, the empty string.
\<close>

datatype jsval = JNull | JUndefined | JString string

definition normalizeErrorPattern :: "jsval \<Rightarrow> string" where
  "normalizeErrorPattern message =
     (case message of
        JNull \<Rightarrow> []
      | JUndefined \<Rightarrow> []
      | JString m \<Rightarrow> if m = [] then [] else apply_rules rules m)"

section \<open>What a pattern can match\<close>

text \<open>
  Four syntactic bounds on the matches of a pattern: whether it can match the empty string,
  which character a match can begin with, how many characters of a class \<open>P\<close> every match
  contains at least, and whether every matched character lies in \<open>P\<close>.
\<close>

fun nullable :: "re \<Rightarrow> bool" where
  "nullable (Chr c) = False"
| "nullable (Cls cs) = False"
| "nullable (NCls cs) = False"
| "nullable (Seq a b) = (nullable a \<and> nullable b)"
| "nullable (Alt a b) = (nullable a \<or> nullable b)"
| "nullable (Rep n m a) = (n = 0 \<or> nullable a)"
| "nullable (Grp n a) = nullable a"
| "nullable _ = True"

fun starts :: "re \<Rightarrow> char \<Rightarrow> bool" where
  "starts (Chr c) x = (x = c)"
| "starts (Cls cs) x = in_class cs x"
| "starts (NCls cs) x = (\<not> in_class cs x)"
| "starts (Seq a b) x = (starts a x \<or> nullable a \<and> starts b x)"
| "starts (Alt a b) x = (starts a x \<or> starts b x)"
| "starts (Rep n m a) x = starts a x"
| "starts (Grp n a) x = starts a x"
| "starts _ x = False"

fun need :: "citem list \<Rightarrow> re \<Rightarrow> nat" where
  "need P (Chr c) = (if in_class P c then 1 else 0)"
| "need P (Cls cs) = (if set cs \<subseteq> set P then 1 else 0)"
| "need P (Seq a b) = need P a + need P b"
| "need P (Alt a b) = min (need P a) (need P b)"
| "need P (Rep n m a) = n * need P a"
| "need P (Grp n a) = need P a"
| "need P _ = 0"

fun within :: "citem list \<Rightarrow> re \<Rightarrow> bool" where
  "within P (Chr c) = in_class P c"
| "within P (Cls cs) = (set cs \<subseteq> set P)"
| "within P (NCls cs) = False"
| "within P (Seq a b) = (within P a \<and> within P b)"
| "within P (Alt a b) = (within P a \<and> within P b)"
| "within P (Rep n m a) = within P a"
| "within P (Grp n a) = within P a"
| "within P _ = True"

definition cnt :: "citem list \<Rightarrow> string \<Rightarrow> nat" where
  "cnt P w = length (filter (in_class P) w)"

definition fits :: "citem list \<Rightarrow> re \<Rightarrow> string \<Rightarrow> bool" where
  "fits P e w = (need P e \<le> cnt P w \<and> (within P e \<longrightarrow> list_all (in_class P) w) \<and>
     (case w of [] \<Rightarrow> nullable e | c # _ \<Rightarrow> starts e c))"

definition consumed :: "mstate \<Rightarrow> mstate \<Rightarrow> string \<Rightarrow> bool" where
  "consumed x y w = (fst (snd x) = w @ fst (snd y) \<and> fst y = rev w @ fst x)"

definition is_upper :: "char \<Rightarrow> bool" where
  "is_upper c = in_class [Rng CHR ''A'' CHR ''Z''] c"


text \<open>
  The matches of the case-identifier pattern and of the long-number pattern, read off the
  input: a case identifier begins where upper-case letters are followed by a hyphen and a
  digit, and its match ends behind the digits; a long number begins where at least six
  digits stand between two word boundaries.
\<close>

definition case_id_at :: "string \<Rightarrow> bool" where
  "case_id_at r = (takeWhile is_upper r \<noteq> [] \<and>
     (case dropWhile is_upper r of c # d # _ \<Rightarrow> c = CHR ''-'' \<and> is_digit d | _ \<Rightarrow> False))"

definition case_id_rest :: "string \<Rightarrow> string" where
  "case_id_rest r = dropWhile is_digit (tl (dropWhile is_upper r))"

definition long_id_at :: "string \<Rightarrow> string \<Rightarrow> bool" where
  "long_id_at l r = (\<not> at_word l \<and> 6 \<le> length (takeWhile is_digit r) \<and> \<not> at_word (dropWhile is_digit r))"

text \<open>Characters without which no pattern matches.\<close>

definition trigger :: "citem list" where
  "trigger = [Digit, Lit CHR ''('', Lit CHR ''['', Lit CHR '','', Lit CHR ''-'', Lit CHR ''/'', Lit dquote,
              Lit CHR ''@'', Lit CHR ''.'', Lit CHR '':'', Lit CHR ''='', Lit CHR ''%'']"

text \<open>A text without any of them.\<close>

definition plain :: "string \<Rightarrow> bool" where
  "plain w = list_all (\<lambda>c. \<not> in_class trigger c) w"



section \<open>Waterfall classification\<close>

text \<open>
  Modelled from the spec: the log record the classifier reads. The classifier is part of
  \<^verbatim>\<open>log_grouper.py\<close>, which is not among the sources; the repository describes it in
  \<^verbatim>\<open>docs/Grouping.md\<close>. A record carries the message and the optional logger name,
  exception class, rule name and rule type.
\<close>

record LogRecord =
  message :: string
  loggerName :: "string option"
  exceptionClass :: "string option"
  ruleName :: "string option"
  ruleType :: "string option"

datatype level = RuleFailure | LoggerPattern | Unclassified

text \<open>
  Modelled from the spec: the signature, the fields joined by a bar, and the waterfall
  classifier of \<^verbatim>\<open>log_grouper.py\<close>. The levels
  are tested from the top and the first that matches decides. Level 1 matches iff the
  record has exception class, rule name and rule type; level 2 iff it has a logger name
  and a non-empty message; level 3 is the fallback. The result is the level, the
  signature and the fingerprint input.
\<close>

fun join :: "string list \<Rightarrow> string" where
  "join [] = []"
| "join [x] = x"
| "join (x # xs) = x @ '' | '' @ join xs"

definition classify :: "LogRecord \<Rightarrow> level \<times> string \<times> string list" where
  "classify r =
     (case (exceptionClass r, ruleName r, ruleType r) of
        (Some e, Some n, Some t) \<Rightarrow> (RuleFailure, join [e, n, t], [e, n, t])
      | _ \<Rightarrow>
        (case loggerName r of
           Some lg \<Rightarrow>
             if message r \<noteq> []
             then (LoggerPattern, join [normalizeErrorPattern (JString (message r)), lg],
                   [normalizeErrorPattern (JString (message r)), lg])
             else (Unclassified, normalizeErrorPattern (JString (message r)),
                   [normalizeErrorPattern (JString (message r))])
         | None \<Rightarrow>
             (Unclassified, normalizeErrorPattern (JString (message r)),
              [normalizeErrorPattern (JString (message r))])))"

text \<open>The record of the spec's second example, here with a logger name and a message too.\<close>

definition tax_failure :: LogRecord where
  "tax_failure = \<lparr>message = ''Lock failure on DB'', loggerName = Some ''com.pega.DB'',
     exceptionClass = Some ''NullPointerException'', ruleName = Some ''CalculateTax'',
     ruleType = Some ''Activity''\<rparr>"

section \<open>Checkpointed batch passes\<close>

text \<open>
  Modelled from the spec: the data of the batch scanner, which is part of
  \<^verbatim>\<open>log_grouper.py\<close> too. A source record has a timestamp and the fingerprint its
  classification yields; the state of a pass is the count stored for each fingerprint and
  the checkpoint (\<open>None\<close>, the beginning of time, before the first pass).
\<close>

record SourceRecord =
  ts :: nat
  fingerprint :: string

record PassState =
  counts :: "string \<Rightarrow> nat"
  checkpoint :: "nat option"

text \<open>
  Modelled from the spec: the cursor of the batch scanner, which reads the records of the
  timestamp-ordered source strictly after the checkpoint.
\<close>

definition window :: "nat option \<Rightarrow> SourceRecord list \<Rightarrow> SourceRecord list" where
  "window cp src = (case cp of None \<Rightarrow> src | Some t \<Rightarrow> filter (\<lambda>r. t < ts r) src)"

text \<open>Modelled from the spec: paging in units of a fixed size.\<close>

function pages :: "nat \<Rightarrow> 'a list \<Rightarrow> 'a list list" where
  "pages n xs = (if n = 0 \<or> xs = [] then [] else take n xs # pages n (drop n xs))"
  by pat_completeness auto
termination
  by (relation "measure (\<lambda>(n, xs). length xs)") auto

text \<open>
  Modelled from the spec: per page, the count delta of each fingerprint; the flush, an
  upsert that adds the deltas to the stored counts; and the advance of the checkpoint to
  the timestamp of the page's last record.
\<close>

definition delta :: "SourceRecord list \<Rightarrow> string \<Rightarrow> nat" where
  "delta page f = length (filter (\<lambda>r. fingerprint r = f) page)"

definition flush :: "PassState \<Rightarrow> SourceRecord list \<Rightarrow> PassState" where
  "flush st page = st\<lparr>counts := (\<lambda>f. counts st f + delta page f)\<rparr>"

definition advance :: "PassState \<Rightarrow> SourceRecord list \<Rightarrow> PassState" where
  "advance st page = st\<lparr>checkpoint := Some (ts (last page))\<rparr>"

text \<open>
  Modelled from the spec: a pass. Each page is flushed and then the checkpoint advances to
  the timestamp of the page's last record; the page is the unit of durability.
\<close>

fun run_pages :: "PassState \<Rightarrow> SourceRecord list list \<Rightarrow> PassState" where
  "run_pages st [] = st"
| "run_pages st (p # ps) = run_pages (advance (flush st p) p) ps"

definition run_pass :: "nat \<Rightarrow> PassState \<Rightarrow> SourceRecord list \<Rightarrow> PassState" where
  "run_pass n st src = run_pages st (pages n (window (checkpoint st) src))"

text \<open>
  Modelled from the spec: the two places at which a pass can stop early. After \<open>k\<close> complete
  pages the pass is aborted either before the next page is flushed (an interruption
  mid-page, or a store write that fails), or after that page's flush and before its
  checkpoint advance (the checkpoint persistence that fails after a successful flush).
  In the second case the stored counts already contain the page and the checkpoint does
  not.
\<close>

definition aborted_pass :: "nat \<Rightarrow> nat \<Rightarrow> bool \<Rightarrow> PassState \<Rightarrow> SourceRecord list \<Rightarrow> PassState" where
  "aborted_pass n k flushed st src =
     (let ps = pages n (window (checkpoint st) src); completed = run_pages st (take k ps)
      in if flushed \<and> k < length ps then flush completed (ps ! k) else completed)"

text \<open>
  The records read after the first \<open>k\<close> pages all have a later timestamp than the records of
  those pages: no timestamp is shared across the place of the abort.
\<close>

definition later_after :: "nat \<Rightarrow> nat \<Rightarrow> PassState \<Rightarrow> SourceRecord list \<Rightarrow> bool" where
  "later_after n k st src =
     (let ps = pages n (window (checkpoint st) src)
      in list_all (\<lambda>q. list_all (\<lambda>r. ts q < ts r) (concat (drop k ps))) (concat (take k ps)))"

text \<open>Two small sources for the examples, and the state before the first pass.\<close>

definition fresh :: PassState where
  "fresh = \<lparr>counts = \<lambda>f. 0, checkpoint = None\<rparr>"

definition tied_source :: "SourceRecord list" where
  "tied_source = [\<lparr>ts = 1, fingerprint = ''a''\<rparr>, \<lparr>ts = 1, fingerprint = ''b''\<rparr>]"

definition distinct_source :: "SourceRecord list" where
  "distinct_source =
     [\<lparr>ts = 1, fingerprint = ''a''\<rparr>, \<lparr>ts = 2, fingerprint = ''b''\<rparr>, \<lparr>ts = 3, fingerprint = ''a''\<rparr>]"

section \<open>Diagnosis status\<close>












section \<open>Evaluating character comparisons\<close>

lemma bval_less: "bval xs < 2 ^ length xs"
  by (induction xs) auto

lemma ble_bval: "length xs = length ys \<Longrightarrow> ble xs ys = (bval xs \<le> bval ys)"
proof (induction xs ys rule: list_induct2)
  case Nil
  then show ?case by simp
next
  case (Cons x xs y ys)
  have a: "bval xs < 2 ^ length ys" using bval_less[of xs] Cons.hyps by simp
  have b: "bval ys < 2 ^ length ys" using bval_less[of ys] by simp
  show ?case using Cons.IH Cons.hyps a b by (cases x; cases y) auto
qed

lemma of_char_bval:
  "of_char (Char a0 a1 a2 a3 a4 a5 a6 a7) = bval [a7, a6, a5, a4, a3, a2, a1, a0]"
  by simp

lemma cle_of_char: "cle a b = ((of_char a :: nat) \<le> of_char b)"
proof (cases a; cases b)
  fix a0 a1 a2 a3 a4 a5 a6 a7 b0 b1 b2 b3 b4 b5 b6 b7
  assume a: "a = Char a0 a1 a2 a3 a4 a5 a6 a7" and b: "b = Char b0 b1 b2 b3 b4 b5 b6 b7"
  show ?thesis unfolding a b of_char_bval cle.simps by (rule ble_bval) simp
qed

lemma in_range_code [code]: "in_range lo hi c = (cle lo c \<and> cle c hi)"
  by (simp add: in_range_def cle_of_char)

section \<open>Matches respect the syntactic bounds\<close>

lemma in_class_mono: "set cs \<subseteq> set P \<Longrightarrow> in_class cs c \<Longrightarrow> in_class P c"
  by (auto simp: in_class_def list_ex_iff)

lemma consumed_refl: "consumed x x []"
  by (simp add: consumed_def)

lemma consumed_trans: "consumed x y u \<Longrightarrow> consumed y z v \<Longrightarrow> consumed x z (u @ v)"
  by (simp add: consumed_def)

lemma cnt_append: "cnt P (u @ v) = cnt P u + cnt P v"
  by (simp add: cnt_def)

lemma fits_Seq:
  assumes "fits P a u" "fits P b v"
  shows "fits P (Seq a b) (u @ v)"
proof -
  have 1: "need P (Seq a b) \<le> cnt P (u @ v)"
    using assms by (simp add: fits_def cnt_append)
  have 2: "within P (Seq a b) \<longrightarrow> list_all (in_class P) (u @ v)"
    using assms by (simp add: fits_def)
  have 3: "case u @ v of [] \<Rightarrow> nullable (Seq a b) | c # _ \<Rightarrow> starts (Seq a b) c"
    using assms by (cases u; cases v) (simp_all add: fits_def)
  show ?thesis unfolding fits_def using 1 2 3 by blast
qed

lemma fits_Rep_Suc:
  assumes "fits P a u" "fits P (Rep n m a) v"
  shows "fits P (Rep (Suc n) m a) (u @ v)"
proof -
  have 1: "need P (Rep (Suc n) m a) \<le> cnt P (u @ v)"
    using assms by (simp add: fits_def cnt_append)
  have 2: "within P (Rep (Suc n) m a) \<longrightarrow> list_all (in_class P) (u @ v)"
    using assms by (simp add: fits_def)
  have 3: "case u @ v of [] \<Rightarrow> nullable (Rep (Suc n) m a) | c # _ \<Rightarrow> starts (Rep (Suc n) m a) c"
    using assms by (cases u; cases v) (simp_all add: fits_def)
  show ?thesis unfolding fits_def using 1 2 3 by blast
qed

lemma fits_Rep_0:
  assumes "fits P a u" "fits P (Rep 0 m a) v"
  shows "fits P (Rep 0 m' a) (u @ v)"
proof -
  have 1: "need P (Rep 0 m' a) \<le> cnt P (u @ v)"
    by simp
  have 2: "within P (Rep 0 m' a) \<longrightarrow> list_all (in_class P) (u @ v)"
    using assms by (simp add: fits_def)
  have 3: "case u @ v of [] \<Rightarrow> nullable (Rep 0 m' a) | c # _ \<Rightarrow> starts (Rep 0 m' a) c"
    using assms by (cases u; cases v) (simp_all add: fits_def)
  show ?thesis unfolding fits_def using 1 2 3 by blast
qed

lemma fits_Rep_Nil: "fits P (Rep 0 m a) []"
  by (simp add: fits_def cnt_def)

lemma fits_Alt: "fits P a u \<or> fits P b u \<Longrightarrow> fits P (Alt a b) u"
  by (cases u) (auto simp: fits_def)

declare ms.simps [simp del] replace_from.simps [simp del]

lemma ms_fits: "y \<in> set (ms e x) \<Longrightarrow> \<exists>w. consumed x y w \<and> fits P e w"
proof (induction e x arbitrary: y rule: ms.induct)
  case (1 x)
  then show ?case by (auto simp: ms.simps consumed_def fits_def cnt_def)
next
  case (2 c l r g)
  then show ?case by (auto simp: ms.simps consumed_def fits_def cnt_def split: list.splits if_splits)
next
  case (3 cs l r g)
  then show ?case
    by (auto simp: ms.simps consumed_def fits_def cnt_def in_class_mono split: list.splits if_splits)
next
  case (4 cs l r g)
  then show ?case by (auto simp: ms.simps consumed_def fits_def cnt_def split: list.splits if_splits)
next
  case (5 a b x)
  from 5(3) obtain z where z: "z \<in> set (ms a x)" "y \<in> set (ms b z)" by (auto simp: ms.simps(5))
  from 5(1)[OF z(1)] obtain u where u: "consumed x z u" "fits P a u" by blast
  from 5(2)[OF z] obtain v where v: "consumed z y v" "fits P b v" by blast
  have "fits P (Seq a b) (u @ v)"
    using u(2) v(2) by (rule fits_Seq)
  with consumed_trans[OF u(1) v(1)] show ?case by blast
next
  case (6 a b x)
  from 6(3) consider "y \<in> set (ms a x)" | "y \<in> set (ms b x)" by (auto simp: ms.simps(6))
  then show ?case
  proof cases
    case 1
    from 6(1)[OF 1] obtain u where u: "consumed x y u" "fits P a u" by blast
    from u(2) have "fits P (Alt a b) u" by (simp add: fits_Alt)
    with u(1) show ?thesis by blast
  next
    case 2
    from 6(2)[OF 2] obtain u where u: "consumed x y u" "fits P b u" by blast
    from u(2) have "fits P (Alt a b) u" by (simp add: fits_Alt)
    with u(1) show ?thesis by blast
  qed
next
  case (7 n m a x)
  from 7(3) obtain z where z: "z \<in> set (ms a x)" "y \<in> set (ms (Rep n m a) z)" by (auto simp: ms.simps(7))
  from 7(1)[OF z(1)] obtain u where u: "consumed x z u" "fits P a u" by blast
  from 7(2)[OF z] obtain v where v: "consumed z y v" "fits P (Rep n m a) v" by blast
  have "fits P (Rep (Suc n) m a) (u @ v)"
    using u(2) v(2) by (rule fits_Rep_Suc)
  with consumed_trans[OF u(1) v(1)] show ?case by blast
next
  case (8 a x)
  then have "y = x" by (simp add: ms.simps(8))
  then show ?case using consumed_refl fits_Rep_Nil by blast
next
  case (9 k a x)
  show ?case
  proof (cases "y = x")
    case True
    then show ?thesis using consumed_refl fits_Rep_Nil by blast
  next
    case False
    have "y \<in> set (concat (map (ms (Rep 0 (Some k) a)) (filter (progress x) (ms a x))) @ [x])"
      using 9(3) by (simp only: ms.simps(9))
    with False obtain z where z: "z \<in> set (filter (progress x) (ms a x))" "y \<in> set (ms (Rep 0 (Some k) a) z)"
      by auto
    from z(1) have z1: "z \<in> set (ms a x)" by simp
    from 9(1)[OF z1] obtain u where u: "consumed x z u" "fits P a u" by blast
    from 9(2)[OF z] obtain v where v: "consumed z y v" "fits P (Rep 0 (Some k) a) v" by blast
    have "fits P (Rep 0 (Some (Suc k)) a) (u @ v)"
      using u(2) v(2) by (rule fits_Rep_0)
    with consumed_trans[OF u(1) v(1)] show ?thesis by blast
  qed
next
  case (10 a x)
  show ?case
  proof (cases "y = x")
    case True
    then show ?thesis using consumed_refl fits_Rep_Nil by blast
  next
    case False
    have "y \<in> set (concat (map (ms (Rep 0 None a)) (filter (progress x) (ms a x))) @ [x])"
      using 10(3) by (subst (asm) ms.simps(10))
    with False obtain z where z: "z \<in> set (filter (progress x) (ms a x))" "y \<in> set (ms (Rep 0 None a) z)"
      by auto
    from z(1) have z1: "z \<in> set (ms a x)" by simp
    from 10(1)[OF z1] obtain u where u: "consumed x z u" "fits P a u" by blast
    from 10(2)[OF z] obtain v where v: "consumed z y v" "fits P (Rep 0 None a) v" by blast
    have "fits P (Rep 0 None a) (u @ v)"
      using u(2) v(2) by (rule fits_Rep_0)
    with consumed_trans[OF u(1) v(1)] show ?thesis by blast
  qed
next
  case (11 n a l r g)
  from 11(2) obtain z where z: "z \<in> set (ms a (l, r, g))" "fst y = fst z" "fst (snd y) = fst (snd z)"
    by (auto simp: ms.simps(11))
  from 11(1)[OF z(1)] obtain u where u: "consumed (l, r, g) z u" "fits P a u" by blast
  from u(1) z have "consumed (l, r, g) y u" by (simp add: consumed_def)
  moreover from u(2) have "fits P (Grp n a) u" by (cases u) (simp_all add: fits_def)
  ultimately show ?case by blast
next
  case (12 l r g)
  then show ?case by (auto simp: ms.simps(12) consumed_def fits_def cnt_def split: if_splits)
next
  case (13 l r g)
  then show ?case by (auto simp: ms.simps(13) consumed_def fits_def cnt_def split: if_splits)
next
  case (14 a l r g)
  from 14(2) have "fst y = l" "fst (snd y) = r" by (auto simp: ms.simps(14) split: list.splits)
  then show ?case by (auto simp: consumed_def fits_def cnt_def)
next
  case (15 a x)
  from 15(2) have "y = x" by (auto simp: ms.simps(15) split: if_splits)
  then show ?case by (auto simp: consumed_def fits_def cnt_def)
qed

lemma cnt_prefix: "cnt P w \<le> cnt P (w @ r)"
  by (simp add: cnt_append)

lemma ms_empty_need:
  assumes "cnt P (fst (snd x)) < need P e"
  shows "ms e x = []"
proof (rule ccontr)
  assume "ms e x \<noteq> []"
  then obtain y where "y \<in> set (ms e x)" by (cases "ms e x") auto
  from ms_fits[OF this, of P] obtain w where w: "consumed x y w" "fits P e w" by blast
  from w(1) have "cnt P w \<le> cnt P (fst (snd x))" by (simp add: consumed_def cnt_append)
  moreover from w(2) have "need P e \<le> cnt P w" by (simp add: fits_def)
  ultimately show False using assms by simp
qed

lemma ms_empty_start:
  assumes "\<not> nullable e" "case fst (snd x) of [] \<Rightarrow> True | c # _ \<Rightarrow> \<not> starts e c"
  shows "ms e x = []"
proof (rule ccontr)
  assume "ms e x \<noteq> []"
  then obtain y where "y \<in> set (ms e x)" by (cases "ms e x") auto
  from ms_fits[OF this, of "[]"] obtain w where w: "consumed x y w" "fits [] e w" by blast
  show False
  proof (cases w)
    case Nil
    with w(2) assms(1) show False by (simp add: fits_def)
  next
    case (Cons c w')
    with w(1) have "fst (snd x) = c # w' @ fst (snd y)" by (simp add: consumed_def)
    with assms(2) have "\<not> starts e c" by simp
    with w(2) Cons show False by (simp add: fits_def)
  qed
qed

lemma replace_from_Nil: "ms e (l, [], []) = [] \<Longrightarrow> replace_from e t l [] = []"
  by (simp add: replace_from.simps[of e t l "[]"])

lemma replace_from_Cons:
  "ms e (l, c # r, []) = [] \<Longrightarrow> replace_from e t l (c # r) = c # replace_from e t (c # l) r"
  by (simp add: replace_from.simps[of e t l "c # r"])

lemma replace_from_match:
  "ms e (l, r, []) = (l', r', g) # ys \<Longrightarrow> length r' < length r \<Longrightarrow>
   replace_from e t l r = expand t g @ replace_from e t l' r'"
  by (simp add: replace_from.simps[of e t l r])

lemma replace_from_need: "cnt P r < need P e \<Longrightarrow> replace_from e t l r = r"
proof (induction r arbitrary: l)
  case Nil
  then show ?case by (simp add: replace_from_Nil ms_empty_need)
next
  case (Cons c r)
  have "cnt P r \<le> cnt P (c # r)" by (simp add: cnt_def)
  with Cons.prems have "cnt P r < need P e" by simp
  then have "replace_from e t (c # l) r = r" by (rule Cons.IH)
  moreover have "ms e (l, c # r, []) = []" using Cons.prems by (simp add: ms_empty_need)
  ultimately show ?case by (simp add: replace_from_Cons)
qed

lemma replace_need: "cnt P m < need P e \<Longrightarrow> replace e t m = m"
  by (simp add: replace_def replace_from_need)

lemma replace_from_end: "\<not> nullable e \<Longrightarrow> replace_from e t l [] = []"
  by (simp add: replace_from_Nil ms_empty_start)

lemma replace_from_skip:
  "\<not> nullable e \<Longrightarrow> \<forall>c\<in>set k. \<not> starts e c \<Longrightarrow>
   replace_from e t l (k @ r) = k @ replace_from e t (rev k @ l) r"
proof (induction k arbitrary: l)
  case Nil
  then show ?case by simp
next
  case (Cons c k)
  have "ms e (l, c # k @ r, []) = []" using Cons.prems by (simp add: ms_empty_start)
  then show ?case using Cons by (simp add: replace_from_Cons)
qed

lemma replace_only_head:
  assumes "\<not> nullable e" "ms e ([], c # r, []) = []" "\<forall>x\<in>set r. \<not> starts e x"
  shows "replace e t (c # r) = c # r"
proof -
  have "replace_from e t [c] (r @ []) = r @ replace_from e t (rev r @ [c]) []"
    using assms(1,3) by (rule replace_from_skip)
  then show ?thesis using assms(1,2) by (simp add: replace_def replace_from_Cons replace_from_end)
qed

lemma rep_cls_head:
  "list_all (in_class cs) k \<Longrightarrow> (case r of [] \<Rightarrow> True | c # _ \<Rightarrow> \<not> in_class cs c) \<Longrightarrow> n \<le> length k \<Longrightarrow>
   \<exists>ys. ms (Rep n None (Cls cs)) (l, k @ r, g) = (rev k @ l, r, g) # ys"
proof (induction k arbitrary: n l)
  case Nil
  then have "ms (Cls cs) (l, r, g) = []" by (cases r) (simp_all add: ms.simps(3))
  with Nil show ?case by (simp add: ms.simps(10))
next
  case (Cons c k)
  have step: "ms (Cls cs) (l, (c # k) @ r, g) = [(c # l, k @ r, g)]"
    using Cons.prems(1) by (simp add: ms.simps(3))
  show ?case
  proof (cases n)
    case 0
    from Cons.IH[of 0 "c # l"] Cons.prems obtain ys
      where "ms (Rep 0 None (Cls cs)) (c # l, k @ r, g) = (rev k @ c # l, r, g) # ys" by auto
    then show ?thesis using 0 step by (simp add: ms.simps(10)[of "Cls cs" "(l, c # k @ r, g)"] progress_def)
  next
    case (Suc n')
    from Cons.IH[of n' "c # l"] Cons.prems Suc obtain ys
      where "ms (Rep n' None (Cls cs)) (c # l, k @ r, g) = (rev k @ c # l, r, g) # ys" by auto
    then show ?thesis using Suc step by (simp add: ms.simps(7))
  qed
qed

lemma ms_Seq_head:
  "ms a x = y # ys \<Longrightarrow> ms b y = z # zs \<Longrightarrow> \<exists>ws. ms (Seq a b) x = z # ws"
  by (simp add: ms.simps(5))



lemma cnt_Cons: "cnt P (c # w) = (if in_class P c then Suc (cnt P w) else cnt P w)"
  by (simp add: cnt_def)

lemma cnt_Nil: "cnt P [] = 0"
  by (simp add: cnt_def)

lemma cnt_zero: "\<forall>c\<in>set w. \<not> in_class P c \<Longrightarrow> cnt P w = 0"
  by (simp add: cnt_def)

lemma apply_rules_id: "(\<And>e t. (e, t) \<in> set rs \<Longrightarrow> replace e t m = m) \<Longrightarrow> apply_rules rs m = m"
  unfolding apply_rules_def by (induction rs) auto

lemma apply_rules_append: "apply_rules (rs @ qs) m = apply_rules qs (apply_rules rs m)"
  by (simp add: apply_rules_def)

lemma apply_rules_Cons: "apply_rules ((e, t) # rs) m = apply_rules rs (replace e t m)"
  by (simp add: apply_rules_def)

lemma digit_word: "is_digit c \<Longrightarrow> is_word c"
  by (simp add: is_digit_def is_word_def in_class_def)

lemma upper_word: "is_upper c \<Longrightarrow> is_word c"
  by (simp add: is_upper_def is_word_def in_class_def)


lemma upper_not_digit: "is_upper c \<Longrightarrow> \<not> is_digit c"
  by (auto simp: is_upper_def is_digit_def in_class_def in_range_def)


text \<open>
  Every pattern needs some character: a pattern leaves a message unchanged when the
  message has fewer characters of that kind than each of its matches contains.
\<close>

lemma need_paren_index: "need [Lit CHR ''(''] p_paren_index = 1"
  by (simp add: p_paren_index_def many1_def many_def optional_def exactly_def between_def atleast_def digit_def space_def str_def hex_def alnum_def qkey_def vend_def path_stop_def in_class_def dquote_def backslash_def is_digit_def is_space_def in_range_def)

lemma need_bracket_index: "need [Lit CHR ''[''] p_bracket_index = 1"
  by (simp add: p_bracket_index_def many1_def many_def optional_def exactly_def between_def atleast_def digit_def space_def str_def hex_def alnum_def qkey_def vend_def path_stop_def in_class_def dquote_def backslash_def is_digit_def is_space_def in_range_def)

lemma need_http_date: "need [Lit CHR '',''] p_http_date = 1"
  by (simp add: p_http_date_def many1_def many_def optional_def exactly_def between_def atleast_def digit_def space_def str_def hex_def alnum_def qkey_def vend_def path_stop_def in_class_def dquote_def backslash_def is_digit_def is_space_def in_range_def)

lemma need_iso_date: "need [Lit CHR ''-''] p_iso_date = 2"
  by (simp add: p_iso_date_def many1_def many_def optional_def exactly_def between_def atleast_def digit_def space_def str_def hex_def alnum_def qkey_def vend_def path_stop_def in_class_def dquote_def backslash_def is_digit_def is_space_def in_range_def)

lemma need_dash_date: "need [Lit CHR ''-''] p_dash_date = 2"
  by (simp add: p_dash_date_def many1_def many_def optional_def exactly_def between_def atleast_def digit_def space_def str_def hex_def alnum_def qkey_def vend_def path_stop_def in_class_def dquote_def backslash_def is_digit_def is_space_def in_range_def)

lemma need_slash_date: "need [Lit CHR ''/''] p_slash_date = 2"
  by (simp add: p_slash_date_def many1_def many_def optional_def exactly_def between_def atleast_def digit_def space_def str_def hex_def alnum_def qkey_def vend_def path_stop_def in_class_def dquote_def backslash_def is_digit_def is_space_def in_range_def)

lemma need_uuid: "need [Lit CHR ''-''] p_uuid = 4"
  by (simp add: p_uuid_def many1_def many_def optional_def exactly_def between_def atleast_def digit_def space_def str_def hex_def alnum_def qkey_def vend_def path_stop_def in_class_def dquote_def backslash_def is_digit_def is_space_def in_range_def)

lemma need_json_id: "need [Lit dquote] p_json_id = 4"
  by (simp add: p_json_id_def many1_def many_def optional_def exactly_def between_def atleast_def digit_def space_def str_def hex_def alnum_def qkey_def vend_def path_stop_def in_class_def dquote_def backslash_def is_digit_def is_space_def in_range_def)

lemma need_case_id: "need [Lit CHR ''-''] p_case_id = 1"
  by (simp add: p_case_id_def many1_def many_def optional_def exactly_def between_def atleast_def digit_def space_def str_def hex_def alnum_def qkey_def vend_def path_stop_def in_class_def dquote_def backslash_def is_digit_def is_space_def in_range_def)

lemma need_long_id: "need [Digit] p_long_id = 6"
  by (simp add: p_long_id_def many1_def many_def optional_def exactly_def between_def atleast_def digit_def space_def str_def hex_def alnum_def qkey_def vend_def path_stop_def in_class_def dquote_def backslash_def is_digit_def is_space_def in_range_def)

lemma need_email: "need [Lit CHR ''@''] p_email = 1"
  by (simp add: p_email_def many1_def many_def optional_def exactly_def between_def atleast_def digit_def space_def str_def hex_def alnum_def qkey_def vend_def path_stop_def in_class_def dquote_def backslash_def is_digit_def is_space_def in_range_def)

lemma need_ip: "need [Lit CHR ''.''] p_ip = 3"
  by (simp add: p_ip_def many1_def many_def optional_def exactly_def between_def atleast_def digit_def space_def str_def hex_def alnum_def qkey_def vend_def path_stop_def in_class_def dquote_def backslash_def is_digit_def is_space_def in_range_def)

lemma need_win_path: "need [Lit CHR '':''] p_win_path = 1"
  by (simp add: p_win_path_def many1_def many_def optional_def exactly_def between_def atleast_def digit_def space_def str_def hex_def alnum_def qkey_def vend_def path_stop_def in_class_def dquote_def backslash_def is_digit_def is_space_def in_range_def)

lemma need_unix_path: "need [Lit CHR ''/''] p_unix_path = 1"
  by (simp add: p_unix_path_def many1_def many_def optional_def exactly_def between_def atleast_def digit_def space_def str_def hex_def alnum_def qkey_def vend_def path_stop_def in_class_def dquote_def backslash_def is_digit_def is_space_def in_range_def)

lemma need_session_id: "need [Lit CHR ''/''] p_session_id = 2"
  by (simp add: p_session_id_def many1_def many_def optional_def exactly_def between_def atleast_def digit_def space_def str_def hex_def alnum_def qkey_def vend_def path_stop_def in_class_def dquote_def backslash_def is_digit_def is_space_def in_range_def)

lemma need_hex_id: "need [Lit CHR ''=''] p_hex_id = 1"
  by (simp add: p_hex_id_def many1_def many_def optional_def exactly_def between_def atleast_def digit_def space_def str_def hex_def alnum_def qkey_def vend_def path_stop_def in_class_def dquote_def backslash_def is_digit_def is_space_def in_range_def)

lemma need_long_param: "need [Lit CHR ''=''] p_long_param = 1"
  by (simp add: p_long_param_def many1_def many_def optional_def exactly_def between_def atleast_def digit_def space_def str_def hex_def alnum_def qkey_def vend_def path_stop_def in_class_def dquote_def backslash_def is_digit_def is_space_def in_range_def)

lemma need_num_param: "need [Digit] p_num_param = 5"
  by (simp add: p_num_param_def many1_def many_def optional_def exactly_def between_def atleast_def digit_def space_def str_def hex_def alnum_def qkey_def vend_def path_stop_def in_class_def dquote_def backslash_def is_digit_def is_space_def in_range_def)

lemma need_encoded_param: "need [Lit CHR ''%''] p_encoded_param = 1"
  by (simp add: p_encoded_param_def many1_def many_def optional_def exactly_def between_def atleast_def digit_def space_def str_def hex_def alnum_def qkey_def vend_def path_stop_def in_class_def dquote_def backslash_def is_digit_def is_space_def in_range_def)

lemma need_query_value: "need [Lit CHR ''=''] p_query_value = 1"
  by (simp add: p_query_value_def flags_def many1_def many_def optional_def exactly_def between_def atleast_def digit_def space_def str_def hex_def alnum_def qkey_def vend_def path_stop_def in_class_def dquote_def backslash_def is_digit_def is_space_def in_range_def)

lemma need_query_string: "need [Lit CHR '':''] p_query_string = 1"
  by (simp add: p_query_string_def many1_def many_def optional_def exactly_def between_def atleast_def digit_def space_def str_def hex_def alnum_def qkey_def vend_def path_stop_def in_class_def dquote_def backslash_def is_digit_def is_space_def in_range_def)

lemma need_object_ref: "need [Lit CHR ''@''] p_object_ref = 1"
  by (simp add: p_object_ref_def many1_def many_def optional_def exactly_def between_def atleast_def digit_def space_def str_def hex_def alnum_def qkey_def vend_def path_stop_def in_class_def dquote_def backslash_def is_digit_def is_space_def in_range_def)

lemma need_hex_literal: "need [Lit CHR ''0''] p_hex_literal = 1"
  by (simp add: p_hex_literal_def many1_def many_def optional_def exactly_def between_def atleast_def digit_def space_def str_def hex_def alnum_def qkey_def vend_def path_stop_def in_class_def dquote_def backslash_def is_digit_def is_space_def in_range_def)

lemma noop_paren_index: "cnt [Lit CHR ''(''] m < 1 \<Longrightarrow> replace p_paren_index t m = m"
  by (rule replace_need[of "[Lit CHR ''('']"]) (simp add: need_paren_index)

lemma noop_bracket_index: "cnt [Lit CHR ''[''] m < 1 \<Longrightarrow> replace p_bracket_index t m = m"
  by (rule replace_need[of "[Lit CHR ''['']"]) (simp add: need_bracket_index)

lemma noop_http_date: "cnt [Lit CHR '',''] m < 1 \<Longrightarrow> replace p_http_date t m = m"
  by (rule replace_need[of "[Lit CHR '','']"]) (simp add: need_http_date)

lemma noop_iso_date: "cnt [Lit CHR ''-''] m < 2 \<Longrightarrow> replace p_iso_date t m = m"
  by (rule replace_need[of "[Lit CHR ''-'']"]) (simp add: need_iso_date)

lemma noop_dash_date: "cnt [Lit CHR ''-''] m < 2 \<Longrightarrow> replace p_dash_date t m = m"
  by (rule replace_need[of "[Lit CHR ''-'']"]) (simp add: need_dash_date)

lemma noop_slash_date: "cnt [Lit CHR ''/''] m < 2 \<Longrightarrow> replace p_slash_date t m = m"
  by (rule replace_need[of "[Lit CHR ''/'']"]) (simp add: need_slash_date)

lemma noop_uuid: "cnt [Lit CHR ''-''] m < 4 \<Longrightarrow> replace p_uuid t m = m"
  by (rule replace_need[of "[Lit CHR ''-'']"]) (simp add: need_uuid)

lemma noop_json_id: "cnt [Lit dquote] m < 4 \<Longrightarrow> replace p_json_id t m = m"
  by (rule replace_need[of "[Lit dquote]"]) (simp add: need_json_id)

lemma noop_case_id: "cnt [Lit CHR ''-''] m < 1 \<Longrightarrow> replace p_case_id t m = m"
  by (rule replace_need[of "[Lit CHR ''-'']"]) (simp add: need_case_id)

lemma noop_long_id: "cnt [Digit] m < 6 \<Longrightarrow> replace p_long_id t m = m"
  by (rule replace_need[of "[Digit]"]) (simp add: need_long_id)

lemma noop_email: "cnt [Lit CHR ''@''] m < 1 \<Longrightarrow> replace p_email t m = m"
  by (rule replace_need[of "[Lit CHR ''@'']"]) (simp add: need_email)

lemma noop_ip: "cnt [Lit CHR ''.''] m < 3 \<Longrightarrow> replace p_ip t m = m"
  by (rule replace_need[of "[Lit CHR ''.'']"]) (simp add: need_ip)

lemma noop_win_path: "cnt [Lit CHR '':''] m < 1 \<Longrightarrow> replace p_win_path t m = m"
  by (rule replace_need[of "[Lit CHR '':'']"]) (simp add: need_win_path)

lemma noop_unix_path: "cnt [Lit CHR ''/''] m < 1 \<Longrightarrow> replace p_unix_path t m = m"
  by (rule replace_need[of "[Lit CHR ''/'']"]) (simp add: need_unix_path)

lemma noop_session_id: "cnt [Lit CHR ''/''] m < 2 \<Longrightarrow> replace p_session_id t m = m"
  by (rule replace_need[of "[Lit CHR ''/'']"]) (simp add: need_session_id)

lemma noop_hex_id: "cnt [Lit CHR ''=''] m < 1 \<Longrightarrow> replace p_hex_id t m = m"
  by (rule replace_need[of "[Lit CHR ''='']"]) (simp add: need_hex_id)

lemma noop_long_param: "cnt [Lit CHR ''=''] m < 1 \<Longrightarrow> replace p_long_param t m = m"
  by (rule replace_need[of "[Lit CHR ''='']"]) (simp add: need_long_param)

lemma noop_num_param: "cnt [Digit] m < 5 \<Longrightarrow> replace p_num_param t m = m"
  by (rule replace_need[of "[Digit]"]) (simp add: need_num_param)

lemma noop_encoded_param: "cnt [Lit CHR ''%''] m < 1 \<Longrightarrow> replace p_encoded_param t m = m"
  by (rule replace_need[of "[Lit CHR ''%'']"]) (simp add: need_encoded_param)

lemma noop_query_value: "cnt [Lit CHR ''=''] m < 1 \<Longrightarrow> replace p_query_value t m = m"
  by (rule replace_need[of "[Lit CHR ''='']"]) (simp add: need_query_value)

lemma noop_query_string: "cnt [Lit CHR '':''] m < 1 \<Longrightarrow> replace p_query_string t m = m"
  by (rule replace_need[of "[Lit CHR '':'']"]) (simp add: need_query_string)

lemma noop_object_ref: "cnt [Lit CHR ''@''] m < 1 \<Longrightarrow> replace p_object_ref t m = m"
  by (rule replace_need[of "[Lit CHR ''@'']"]) (simp add: need_object_ref)

lemma noop_hex_literal: "cnt [Lit CHR ''0''] m < 1 \<Longrightarrow> replace p_hex_literal t m = m"
  by (rule replace_need[of "[Lit CHR ''0'']"]) (simp add: need_hex_literal)

lemmas pattern_defs = many1_def many_def optional_def exactly_def between_def atleast_def digit_def
  space_def str_def hex_def alnum_def qkey_def vend_def path_stop_def in_class_def dquote_def
  backslash_def is_digit_def is_space_def in_range_def







lemma digits_case_id: "need [Digit] p_case_id = 1"
  by (simp add: p_case_id_def pattern_defs)






lemma equals_num_param: "need [Lit CHR ''=''] p_num_param = 1"
  by (simp add: p_num_param_def pattern_defs)

lemma apply_rules_Nil: "apply_rules [] m = m"
  by (simp add: apply_rules_def)

lemma head_noop:
  assumes "cnt [Lit CHR ''(''] m = 0" "cnt [Lit CHR ''[''] m = 0" "cnt [Lit CHR '',''] m = 0"
    "cnt [Lit CHR ''-''] m \<le> 1" "cnt [Lit CHR ''/''] m \<le> 1" "cnt [Lit dquote] m = 0"
  shows "apply_rules rules_head m = m"
  using assms
  by (simp add: rules_head_def apply_rules_Cons apply_rules_Nil noop_paren_index noop_bracket_index
      noop_http_date noop_iso_date noop_dash_date noop_slash_date noop_uuid noop_json_id)

lemma cnt_mono: "set P \<subseteq> set Q \<Longrightarrow> cnt P w \<le> cnt Q w"
proof (induction w)
  case Nil
  then show ?case by (simp add: cnt_Nil)
next
  case (Cons c w)
  then show ?case using in_class_mono[of P Q c] by (auto simp: cnt_Cons)
qed

lemma cnt_trigger:
  assumes "cnt trigger m = 0" "set P \<subseteq> set trigger"
  shows "cnt P m = 0"
  using cnt_mono[OF assms(2), of m] assms(1) by simp

lemma cnt_trigger_zero: 
  assumes "cnt trigger m = 0"
  shows "cnt [Lit CHR ''0''] m = 0"
proof (rule cnt_zero, rule ballI)
  fix c assume "c \<in> set m"
  with assms have "\<not> in_class trigger c" by (auto simp: cnt_def filter_empty_conv)
  then have "\<not> is_digit c" by (simp add: trigger_def in_class_def)
  moreover have "is_digit CHR ''0''" by (simp add: is_digit_def in_range_def)
  ultimately show "\<not> in_class [Lit CHR ''0''] c"
    by (auto simp: in_class_def)
qed

lemma plain_unchanged:
  assumes "cnt trigger m = 0"
  shows "normalizeErrorPattern (JString m) = m"
proof -
  have lit: "cnt [Lit x] m = 0" if "Lit x \<in> set trigger" for x
    using that by (intro cnt_trigger[OF assms]) simp
  have d: "cnt [Digit] m = 0"
    by (intro cnt_trigger[OF assms]) (simp add: trigger_def)
  note z = cnt_trigger_zero[OF assms]
  have l: "cnt [Lit CHR ''(''] m = 0" "cnt [Lit CHR ''[''] m = 0" "cnt [Lit CHR '',''] m = 0"
    "cnt [Lit CHR ''-''] m = 0" "cnt [Lit CHR ''/''] m = 0" "cnt [Lit dquote] m = 0"
    "cnt [Lit CHR ''@''] m = 0" "cnt [Lit CHR ''.''] m = 0" "cnt [Lit CHR '':''] m = 0"
    "cnt [Lit CHR ''=''] m = 0" "cnt [Lit CHR ''%''] m = 0"
    by (rule lit, simp add: trigger_def)+
  have h: "apply_rules rules_head m = m"
    by (rule head_noop) (simp_all add: l)
  have mid: "apply_rules rules_mid m = m"
    by (simp add: rules_mid_def apply_rules_Cons apply_rules_Nil noop_case_id noop_long_id l d)
  have tl: "apply_rules rules_tail m = m"
    by (simp add: rules_tail_def apply_rules_Cons apply_rules_Nil l d z noop_email noop_ip noop_win_path
        noop_unix_path noop_session_id noop_hex_id noop_long_param noop_num_param noop_encoded_param
        noop_query_value noop_query_string noop_object_ref noop_hex_literal)
  show ?thesis
    by (simp add: normalizeErrorPattern_def rules_def apply_rules_append h mid tl)
qed






lemma plain_no_hyphen: "plain w \<Longrightarrow> CHR ''-'' \<notin> set w"
  by (auto simp: plain_def list_all_iff trigger_def in_class_def)

lemma tail_noop:
  assumes "cnt [Lit CHR ''@''] m = 0" "cnt [Lit CHR ''.''] m \<le> 2" "cnt [Lit CHR '':''] m = 0"
    "cnt [Lit CHR ''/''] m = 0" "cnt [Lit CHR ''=''] m = 0" "cnt [Digit] m \<le> 4"
    "cnt [Lit CHR ''%''] m = 0" "cnt [Lit CHR ''0''] m = 0"
  shows "apply_rules rules_tail m = m"
  using assms
  by (simp add: rules_tail_def apply_rules_Cons apply_rules_Nil noop_email noop_ip noop_win_path
      noop_unix_path noop_session_id noop_hex_id noop_long_param noop_num_param noop_encoded_param
      noop_query_value noop_query_string noop_object_ref noop_hex_literal)


lemma prefix_of_split: "a @ r = b @ x # s \<Longrightarrow> x \<notin> set a \<Longrightarrow> \<exists>t. b = a @ t"
proof (induction a arbitrary: b)
  case Nil
  then show ?case by simp
next
  case (Cons c a)
  then show ?case by (cases b) auto
qed

section \<open>Pages and passes\<close>

declare pages.simps [simp del]

lemma pages_concat: "0 < n \<Longrightarrow> concat (pages n xs) = xs"
proof (induction n xs rule: pages.induct)
  case (1 n xs)
  then show ?case by (subst pages.simps) auto
qed

lemma pages_nonempty: "p \<in> set (pages n xs) \<Longrightarrow> p \<noteq> []"
proof (induction n xs rule: pages.induct)
  case (1 n xs)
  from 1(2) show ?case
    by (subst (asm) pages.simps) (use 1(1) in \<open>auto split: if_splits\<close>)
qed

lemma pages_zero: "pages 0 xs = []"
  by (subst pages.simps) simp

lemma delta_append: "delta (u @ v) f = delta u f + delta v f"
  by (simp add: delta_def)

lemma run_pages_counts: "counts (run_pages st ps) f = counts st f + delta (concat ps) f"
  by (induction ps arbitrary: st) (simp_all add: delta_def flush_def advance_def)

lemma run_pages_checkpoint:
  "ps \<noteq> [] \<Longrightarrow> \<forall>p\<in>set ps. p \<noteq> [] \<Longrightarrow>
   checkpoint (run_pages st ps) = Some (ts (last (concat ps)))"
proof (induction ps arbitrary: st)
  case Nil
  then show ?case by simp
next
  case (Cons p ps)
  show ?case
  proof (cases "ps = []")
    case True
    then show ?thesis by (simp add: flush_def advance_def)
  next
    case False
    with Cons have "checkpoint (run_pages (advance (flush st p) p) ps) = Some (ts (last (concat ps)))"
      by simp
    moreover have "concat ps \<noteq> []" using False Cons.prems(2) by (cases ps) auto
    ultimately show ?thesis by simp
  qed
qed

lemma window_sorted: "sorted (map ts src) \<Longrightarrow> sorted (map ts (window cp src))"
  by (cases cp) (simp_all add: window_def sorted_map sorted_wrt_filter)

lemma window_resume:
  assumes s: "sorted (map ts src)" and w: "window cp src = u @ v" and u: "u \<noteq> []"
    and b: "\<forall>q\<in>set u. \<forall>r\<in>set v. ts q < ts r"
  shows "window (Some (ts (last u))) src = v"
proof -
  let ?t = "ts (last u)"
  have sw: "sorted (map ts (u @ v))" using window_sorted[OF s, of cp] w by simp
  have lu: "last u \<in> set u" using u by simp
  have a: "\<forall>x\<in>set u. \<not> ?t < ts x"
  proof
    fix x assume x: "x \<in> set u"
    have "u = butlast u @ [last u]" using u by simp
    then have "sorted (map ts (butlast u @ [last u]))"
      using sw by (simp add: sorted_append)
    then have "\<forall>y\<in>set (butlast u). ts y \<le> ?t" by (simp add: sorted_append)
    moreover have "x \<in> set (butlast u) \<or> x = last u"
      using x u by (metis append_butlast_last_id in_set_conv_decomp_first insert_iff list.set(2)
          rotate1.simps(2) set_rotate1)
    ultimately show "\<not> ?t < ts x" by auto
  qed
  have b': "\<forall>x\<in>set v. ?t < ts x"
    using b lu by blast
  have c: "filter (\<lambda>r. ?t < ts r) src = filter (\<lambda>r. ?t < ts r) (window cp src)"
  proof (cases cp)
    case None
    then show ?thesis by (simp add: window_def)
  next
    case (Some t0)
    have "last u \<in> set (window cp src)" using w lu by simp
    then have "t0 < ?t" using Some by (simp add: window_def)
    then have eq: "(t0 < ts r \<and> ?t < ts r) = (?t < ts r)" for r by auto
    show ?thesis using Some by (simp add: window_def eq)
  qed
  have "filter (\<lambda>r. ?t < ts r) (u @ v) = v"
    using a b' by (simp add: filter_empty_conv[THEN iffD2] filter_id_conv[THEN iffD2])
  then show ?thesis using c w by (simp add: window_def)
qed

lemma run_pass_counts:
  "counts (run_pass n st src) f =
   counts st f + (if n = 0 then 0 else delta (window (checkpoint st) src) f)"
  by (simp add: run_pass_def run_pages_counts pages_concat pages_zero delta_def)

text \<open>
  A rerun from a state whose checkpoint is that of \<open>k\<close> complete pages reads exactly the
  records behind those pages and adds them to the counts it finds.
\<close>

lemma rerun_counts:
  assumes srt: "sorted (map ts src)" and la: "later_after n k st src" and n: "0 < n"
    and c: "checkpoint st' = checkpoint (run_pages st (take k (pages n (window (checkpoint st) src))))"
  shows "counts (run_pass n st' src) f =
         counts st' f + delta (concat (drop k (pages n (window (checkpoint st) src)))) f"
proof -
  let ?w = "window (checkpoint st) src"
  let ?ps = "take k (pages n ?w)"
  let ?qs = "drop k (pages n ?w)"
  have split: "?w = concat ?ps @ concat ?qs"
    using pages_concat[of n ?w] n by (metis append_take_drop_id concat_append)
  show ?thesis
  proof (cases "?ps = []")
    case True
    then have "checkpoint st' = checkpoint st" using c by (simp only: run_pages.simps)
    moreover have "concat ?qs = ?w" using split True by simp
    ultimately show ?thesis using n by (simp add: run_pass_counts)
  next
    case ne: False
    have pn: "\<forall>p\<in>set ?ps. p \<noteq> []"
      using pages_nonempty[of _ n ?w] by (auto dest: in_set_takeD)
    have u: "concat ?ps \<noteq> []" using ne pn by (cases ?ps) auto
    have b: "\<forall>q\<in>set (concat ?ps). \<forall>r\<in>set (concat ?qs). ts q < ts r"
      using la by (simp add: later_after_def Let_def list_all_iff)
    have "checkpoint st' = Some (ts (last (concat ?ps)))"
      unfolding c using ne pn by (rule run_pages_checkpoint)
    moreover have "window (Some (ts (last (concat ?ps)))) src = concat ?qs"
      using srt split u b by (rule window_resume)
    ultimately show ?thesis using n by (simp add: run_pass_counts)
  qed
qed

section \<open>Null and empty input\<close>

text \<open>
  C4. The function is total: the matcher and the replacement loop terminate on every
  input, so every string input yields a string. For null, undefined and the empty string
  the result is the empty string.
\<close>

theorem normalize_null_empty:
  "normalizeErrorPattern JNull = [] \<and> normalizeErrorPattern JUndefined = [] \<and>
   normalizeErrorPattern (JString []) = []"
  by (simp add: normalizeErrorPattern_def)

section \<open>The documented example\<close>

text \<open>
  C5. The message of the usage example is rewritten to the documented result: the date
  and the case identifier are replaced and nothing else changes.
\<close>

theorem normalize_case_example:
  "normalizeErrorPattern (JString ''Error processing case CO-12345 at 2025-01-01'') =
   ''Error processing case [CASE_ID] at [DATE]''"
  by code_simp

section \<open>Whole query strings\<close>

text \<open>
  C2. The substitution of whole query strings can fire. In a URL whose host begins with a
  character that ends a file path (here the wildcard of a content-security-policy source),
  the two slashes after the scheme are not taken for a path. The rules before the
  query-string rule replace the path of the URL only, so the scheme is still there and the
  query-string rule replaces the whole query string.
\<close>

theorem query_string_reachable:
  "apply_rules (rules_head @ rules_mid @ take 10 rules_tail) ''http://*.example.com/app?x=a%20b'' =
     ''http://*.example.com[FILE_PATH]?x=a%20b'' \<and>
   replace p_query_string [TRef 1, TLit ''?[QUERY_PARAMS]''] ''http://*.example.com[FILE_PATH]?x=a%20b'' =
     ''http://*.example.com[FILE_PATH]?[QUERY_PARAMS]'' \<and>
   normalizeErrorPattern (JString ''http://*.example.com/app?x=a%20b'') =
     ''http://*.example.com[FILE_PATH]?[QUERY_PARAMS]''"
  by code_simp

section \<open>Case identifiers before long numbers\<close>

lemma cnt_le_length: "cnt P w \<le> length w"
  by (simp add: cnt_def)

lemma case_id_match:
  assumes "L \<noteq> []" "list_all is_upper L" "list_all is_digit D" "D \<noteq> []"
    "case r of [] \<Rightarrow> True | c # _ \<Rightarrow> \<not> is_digit c"
  shows "\<exists>ys. ms p_case_id (l, L @ CHR ''-'' # D @ r, g) = (rev D @ CHR ''-'' # rev L @ l, r, g) # ys"
proof -
  have 1: "\<exists>ys. ms (Rep 1 None (Cls [Rng CHR ''A'' CHR ''Z''])) (l, L @ CHR ''-'' # D @ r, g)
             = (rev L @ l, CHR ''-'' # D @ r, g) # ys"
    using assms(1,2)
    by (intro rep_cls_head) (auto simp: list_all_iff is_upper_def in_class_def in_range_def Suc_le_eq)
  have 2: "ms (Chr CHR ''-'') (rev L @ l, CHR ''-'' # D @ r, g) = [(CHR ''-'' # rev L @ l, D @ r, g)]"
    by (simp add: ms.simps(2))
  have 3: "\<exists>ys. ms (Rep 1 None (Cls [Digit])) (CHR ''-'' # rev L @ l, D @ r, g)
             = (rev D @ CHR ''-'' # rev L @ l, r, g) # ys"
    using assms(3,4,5) by (intro rep_cls_head) (auto simp: in_class_def Suc_le_eq list_all_iff split: list.splits)
  from 2 3 have 4: "\<exists>ys. ms (Seq (Chr CHR ''-'') (Rep 1 None (Cls [Digit]))) (rev L @ l, CHR ''-'' # D @ r, g)
             = (rev D @ CHR ''-'' # rev L @ l, r, g) # ys"
    by (auto simp: ms.simps(5))
  from 1 4 show ?thesis
    by (auto simp: p_case_id_def many1_def digit_def ms.simps(5))
qed

lemma at_word_Cons: "at_word (c # s) = is_word c"
  by (simp add: at_word_def)

lemma at_word_Nil: "at_word [] = False"
  by (simp add: at_word_def)

lemma long_id_match:
  assumes "list_all is_digit D" "6 \<le> length D" "\<not> at_word l"
    "case r of [] \<Rightarrow> True | c # _ \<Rightarrow> \<not> is_word c"
  shows "\<exists>ys. ms p_long_id (l, D @ r, g) = (rev D @ l, r, g) # ys"
proof -
  from assms(2) obtain c D' where D: "D = c # D'" by (cases D) auto
  have "D \<noteq> []" using D by simp
  then obtain E x where E: "D = E @ [x]" by (metis rev_exhaust)
  from assms(1) E have dl: "is_digit x" by (auto simp: list_all_iff)
  have nd: "case r of [] \<Rightarrow> True | c # _ \<Rightarrow> \<not> in_class [Digit] c"
    using assms(4) by (auto simp: in_class_def digit_word split: list.splits)
  have 1: "ms WordB (l, D @ r, g) = [(l, D @ r, g)]"
    using assms(1,3) D by (simp add: ms.simps(12) at_word_Cons digit_word)
  have 2: "\<exists>ys. ms (Rep 6 None (Cls [Digit])) (l, D @ r, g) = (rev D @ l, r, g) # ys"
    using assms(1,2) nd by (intro rep_cls_head) (auto simp: in_class_def list_all_iff)
  have "at_word (rev D @ l)" using dl E by (simp add: at_word_Cons digit_word)
  moreover have "\<not> at_word r" using assms(4) by (simp add: at_word_def split: list.splits)
  ultimately have 3: "ms WordB (rev D @ l, r, g) = [(rev D @ l, r, g)]"
    by (simp add: ms.simps(12))
  from 2 3 have 4: "\<exists>ys. ms (Seq (Rep 6 None (Cls [Digit])) WordB) (l, D @ r, g) = (rev D @ l, r, g) # ys"
    by (auto simp: ms.simps(5))
  from 1 4 show ?thesis
    by (auto simp: p_long_id_def atleast_def digit_def ms.simps(5))
qed

text \<open>
  The case-identifier pattern matches exactly where \<^const>\<open>case_id_at\<close> holds, and the match the
  engine reports ends at \<^const>\<open>case_id_rest\<close>; the left context plays no part.
\<close>

lemma takeWhile_stop: "W \<noteq> [] \<Longrightarrow> \<not> P (hd W) \<Longrightarrow> takeWhile P (a @ W) = takeWhile P a"
  by (induction a) (auto simp: takeWhile_eq_Nil_iff)

lemma dropWhile_stop: "W \<noteq> [] \<Longrightarrow> \<not> P (hd W) \<Longrightarrow> dropWhile P (a @ W) = dropWhile P a @ W"
  by (induction a) (auto simp: dropWhile_eq_self_iff)

lemma hyphen_not_upper: "\<not> is_upper CHR ''-''"
  by (simp add: is_upper_def in_class_def in_range_def)

lemma case_id_at_split:
  assumes "case_id_at r"
  shows "\<exists>L D. r = L @ CHR ''-'' # D @ case_id_rest r \<and> L \<noteq> [] \<and> list_all is_upper L \<and>
           D \<noteq> [] \<and> list_all is_digit D \<and>
           (case case_id_rest r of [] \<Rightarrow> True | c # _ \<Rightarrow> \<not> is_digit c)"
proof -
  let ?L = "takeWhile is_upper r"
  from assms obtain d t where u: "dropWhile is_upper r = CHR ''-'' # d # t" and d: "is_digit d"
    by (auto simp: case_id_at_def split: list.splits)
  let ?D = "takeWhile is_digit (d # t)"
  have rest: "case_id_rest r = dropWhile is_digit (d # t)" by (simp add: case_id_rest_def u)
  have "r = ?L @ dropWhile is_upper r" by simp
  also have "\<dots> = ?L @ CHR ''-'' # ?D @ dropWhile is_digit (d # t)" unfolding u by simp
  finally have 1: "r = ?L @ CHR ''-'' # ?D @ case_id_rest r" using rest by simp
  have 2: "?L \<noteq> []" using assms by (simp add: case_id_at_def)
  have 3: "list_all is_upper ?L" by (auto simp: list_all_iff dest: set_takeWhileD)
  have 4: "?D \<noteq> []" using d by simp
  have 5: "list_all is_digit ?D" by (auto simp: list_all_iff dest: set_takeWhileD)
  have 6: "case case_id_rest r of [] \<Rightarrow> True | c # _ \<Rightarrow> \<not> is_digit c"
    unfolding rest using hd_dropWhile[of is_digit "d # t"] by (auto split: list.splits)
  from 1 2 3 4 5 6 show ?thesis by blast
qed

lemma case_id_at_match:
  assumes "case_id_at r"
  shows "\<exists>l' ys. ms p_case_id (l, r, g) = (l', case_id_rest r, g) # ys"
proof -
  from case_id_at_split[OF assms] obtain L D
    where s: "r = L @ CHR ''-'' # D @ case_id_rest r" "L \<noteq> []" "list_all is_upper L" "D \<noteq> []"
      "list_all is_digit D" "case case_id_rest r of [] \<Rightarrow> True | c # _ \<Rightarrow> \<not> is_digit c"
    by blast
  from case_id_match[OF s(2,3,5,4,6), of l g] s(1) show ?thesis by metis
qed

lemma case_id_rest_shorter: "case_id_at r \<Longrightarrow> length (case_id_rest r) < length r"
  using case_id_at_split[of r] by (metis add_Suc_right length_Cons length_append less_add_Suc2 trans_less_add2)

lemma case_id_shape:
  assumes "y \<in> set (ms p_case_id (l, r, g))"
  shows "\<exists>L D. r = L @ CHR ''-'' # D @ fst (snd y) \<and> L \<noteq> [] \<and> list_all is_upper L \<and>
           D \<noteq> [] \<and> list_all is_digit D"
proof -
  let ?U = "[Rng CHR ''A'' CHR ''Z'']"
  let ?A = "Rep 1 None (Cls ?U)"
  let ?N = "Rep 1 None (Cls [Digit])"
  let ?B = "Seq (Chr CHR ''-'') ?N"
  from assms have "y \<in> set (concat (map (ms ?B) (ms ?A (l, r, g))))"
    by (simp add: p_case_id_def many1_def digit_def ms.simps(5))
  then obtain z where z: "z \<in> set (ms ?A (l, r, g))" and y: "y \<in> set (ms ?B z)" by auto
  from y have "y \<in> set (concat (map (ms ?N) (ms (Chr CHR ''-'') z)))"
    by (simp only: ms.simps(5))
  then obtain z2 where z2: "z2 \<in> set (ms (Chr CHR ''-'') z)" and y2: "y \<in> set (ms ?N z2)" by auto
  obtain lz rz gz where zz: "z = (lz, rz, gz)" by (cases z)
  from z2 zz obtain s where rz: "rz = CHR ''-'' # s" and z2e: "z2 = (CHR ''-'' # lz, s, gz)"
    by (cases rz) (auto simp: ms.simps(2) split: if_splits)
  from ms_fits[OF z, of ?U] obtain w where w: "consumed (l, r, g) z w" "fits ?U ?A w" by blast
  from ms_fits[OF y2, of "[Digit]"] obtain v where v: "consumed z2 y v" "fits [Digit] ?N v" by blast
  from w(2) have wu: "list_all (in_class ?U) w" and wn: "1 \<le> cnt ?U w" by (simp_all add: fits_def)
  from v(2) have vu: "list_all (in_class [Digit]) v" and vn: "1 \<le> cnt [Digit] v" by (simp_all add: fits_def)
  have "r = w @ CHR ''-'' # v @ fst (snd y)"
    using w(1) v(1) zz rz z2e by (simp add: consumed_def)
  moreover have "w \<noteq> []" using wn by (auto simp: cnt_Nil)
  moreover have "v \<noteq> []" using vn by (auto simp: cnt_Nil)
  moreover have "list_all is_upper w" using wu by (simp add: list_all_iff is_upper_def)
  moreover have "list_all is_digit v" using vu by (simp add: list_all_iff in_class_def)
  ultimately show ?thesis by blast
qed

lemma case_id_at_none:
  assumes "\<not> case_id_at r"
  shows "ms p_case_id (l, r, g) = []"
proof (rule ccontr)
  assume "ms p_case_id (l, r, g) \<noteq> []"
  then obtain y where "y \<in> set (ms p_case_id (l, r, g))" by (cases "ms p_case_id (l, r, g)") auto
  from case_id_shape[OF this] obtain L D where s: "r = L @ CHR ''-'' # D @ fst (snd y)" "L \<noteq> []"
    "list_all is_upper L" "D \<noteq> []" "list_all is_digit D" by blast
  from s(4) obtain d D' where D: "D = d # D'" by (cases D) auto
  have up: "\<forall>x\<in>set L. is_upper x" using s(3) by (simp add: list_all_iff)
  have "takeWhile is_upper r = L"
    unfolding s(1) using up by (simp add: takeWhile_append2 hyphen_not_upper)
  moreover have "dropWhile is_upper r = CHR ''-'' # D @ fst (snd y)"
    unfolding s(1) using up by (simp add: dropWhile_append2 hyphen_not_upper)
  ultimately have "case_id_at r" using s(2,5) D by (simp add: case_id_at_def)
  with assms show False by simp
qed

lemma case_id_left:
  "replace_from p_case_id t l r = replace_from p_case_id t l' r"
proof (induction r arbitrary: l l' rule: length_induct)
  case (1 r)
  show ?case
  proof (cases "case_id_at r")
    case True
    from case_id_at_match[OF True, of l "[]"] obtain l1 ys
      where a: "ms p_case_id (l, r, []) = (l1, case_id_rest r, []) # ys" by blast
    from case_id_at_match[OF True, of l' "[]"] obtain l2 zs
      where b: "ms p_case_id (l', r, []) = (l2, case_id_rest r, []) # zs" by blast
    note sh = case_id_rest_shorter[OF True]
    have "replace_from p_case_id t l1 (case_id_rest r) = replace_from p_case_id t l2 (case_id_rest r)"
      using 1 sh by blast
    then show ?thesis
      using replace_from_match[OF a sh, of t] replace_from_match[OF b sh, of t] by simp
  next
    case False
    then have a: "ms p_case_id (l, r, []) = []" "ms p_case_id (l', r, []) = []"
      by (simp_all add: case_id_at_none)
    show ?thesis
    proof (cases r)
      case Nil
      then show ?thesis using a by (simp add: replace_from_Nil)
    next
      case (Cons c r')
      have "replace_from p_case_id t (c # l) r' = replace_from p_case_id t (c # l') r'"
        using 1 Cons by simp
      then show ?thesis using a Cons by (simp add: replace_from_Cons)
    qed
  qed
qed

lemma tl_suffix: "\<exists>k. xs = k @ tl xs"
proof (cases xs)
  case Nil
  then show ?thesis by simp
next
  case (Cons a ys)
  then have "xs = [a] @ tl xs" by simp
  then show ?thesis by blast
qed

lemma case_id_rest_suffix: "\<exists>k. r = k @ case_id_rest r"
proof -
  let ?u = "dropWhile is_upper r"
  obtain k where k: "?u = k @ tl ?u" using tl_suffix by blast
  have "r = takeWhile is_upper r @ ?u" by simp
  also have "\<dots> = takeWhile is_upper r @ k @ tl ?u" using k by simp
  also have "\<dots> = (takeWhile is_upper r @ k @ takeWhile is_digit (tl ?u)) @ dropWhile is_digit (tl ?u)"
    by simp
  finally show ?thesis unfolding case_id_rest_def by blast
qed

lemma case_id_context:
  assumes "x \<noteq> []" "\<not> is_upper (last x)" "W \<noteq> []" "is_upper (hd W)"
  shows "case_id_at (x @ W) = case_id_at x"
    and "case_id_at x \<Longrightarrow> case_id_rest (x @ W) = case_id_rest x @ W"
proof -
  have lx: "last x \<in> set x" using assms(1) by simp
  have tw: "takeWhile is_upper (x @ W) = takeWhile is_upper x"
    using lx assms(2) by (rule takeWhile_append1)
  have dw: "dropWhile is_upper (x @ W) = dropWhile is_upper x @ W"
    using lx assms(2) by (rule dropWhile_append1)
  have ne: "dropWhile is_upper x \<noteq> []"
    using lx assms(2) by (auto simp: dropWhile_eq_Nil_conv)
  have nd: "\<not> is_digit (hd W)" using assms(4) by (simp add: upper_not_digit)
  obtain c u where u: "dropWhile is_upper x = c # u" using ne by (cases "dropWhile is_upper x") auto
  obtain h W' where W: "W = h # W'" using assms(3) by (cases W) auto
  have 1: "case_id_at (x @ W) =
      (takeWhile is_upper x \<noteq> [] \<and> (case c # u @ W of a # d # _ \<Rightarrow> a = CHR ''-'' \<and> is_digit d | _ \<Rightarrow> False))"
    by (simp add: case_id_at_def tw dw u)
  have 2: "case_id_at x =
      (takeWhile is_upper x \<noteq> [] \<and> (case c # u of a # d # _ \<Rightarrow> a = CHR ''-'' \<and> is_digit d | _ \<Rightarrow> False))"
    by (simp add: case_id_at_def u)
  show "case_id_at (x @ W) = case_id_at x"
    unfolding 1 2 using nd W by (cases u) simp_all
  assume "case_id_at x"
  then obtain d t where dt: "u = d # t" using u by (auto simp: case_id_at_def split: list.splits)
  show "case_id_rest (x @ W) = case_id_rest x @ W"
    using dropWhile_stop[of W is_digit "d # t"] assms(3) nd by (simp add: case_id_rest_def dw u dt)
qed

lemma case_id_split:
  assumes "x = [] \<or> \<not> is_upper (last x)" "W \<noteq> []" "is_upper (hd W)"
  shows "replace_from p_case_id t l (x @ W) = replace_from p_case_id t l x @ replace_from p_case_id t l' W"
  using assms(1)
proof (induction x arbitrary: l rule: length_induct)
  case (1 x)
  show ?case
  proof (cases "x = []")
    case True
    have "\<not> case_id_at []" by (simp add: case_id_at_def)
    then have "replace_from p_case_id t l [] = []"
      by (simp add: replace_from_Nil case_id_at_none)
    then show ?thesis using True case_id_left[of t l W l'] by simp
  next
    case False
    with 1(2) have nu: "\<not> is_upper (last x)" by simp
    note ctx = case_id_context[OF False nu assms(2,3)]
    show ?thesis
    proof (cases "case_id_at x")
      case True
      let ?R = "case_id_rest x"
      from case_id_at_match[OF True, of l "[]"] obtain l1 ys
        where a: "ms p_case_id (l, x, []) = (l1, ?R, []) # ys" by blast
      from True ctx have "case_id_at (x @ W)" and r: "case_id_rest (x @ W) = ?R @ W" by simp_all
      from case_id_at_match[OF this(1), of l "[]"] r obtain l2 zs
        where b: "ms p_case_id (l, x @ W, []) = (l2, ?R @ W, []) # zs" by auto
      note sh = case_id_rest_shorter[OF True]
      from case_id_rest_suffix[of x] obtain k where k: "x = k @ ?R" by blast
      have "?R = [] \<or> \<not> is_upper (last ?R)"
        using nu k by (metis last_appendR)
      with 1(1) sh have "replace_from p_case_id t l2 (?R @ W)
          = replace_from p_case_id t l2 ?R @ replace_from p_case_id t l' W" by blast
      moreover have "replace_from p_case_id t l2 ?R = replace_from p_case_id t l1 ?R"
        by (rule case_id_left)
      moreover have "length (?R @ W) < length (x @ W)" using sh by simp
      ultimately show ?thesis
        using replace_from_match[OF a sh, of t] replace_from_match[OF b, of t] by simp
    next
      case F: False
      with ctx have "\<not> case_id_at (x @ W)" by simp
      with F have a: "ms p_case_id (l, x, []) = []" "ms p_case_id (l, x @ W, []) = []"
        by (simp_all add: case_id_at_none)
      obtain c x' where x: "x = c # x'" using False by (cases x) auto
      have "x' = [] \<or> \<not> is_upper (last x')" using nu x by auto
      moreover have "length x' < length x" using x by simp
      ultimately have "replace_from p_case_id t (c # l) (x' @ W)
          = replace_from p_case_id t (c # l) x' @ replace_from p_case_id t l' W"
        using 1(1) by blast
      then show ?thesis using a x by (simp add: replace_from_Cons)
    qed
  qed
qed

lemma case_id_replace_any:
  assumes "L \<noteq> []" "list_all is_upper L" "list_all is_digit D" "D \<noteq> []"
  shows "replace p_case_id [TLit ''[CASE_ID]''] (pre @ L @ CHR ''-'' # D @ post)
         = replace p_case_id [TLit ''[CASE_ID]''] (rev (dropWhile is_upper (rev pre))) @ ''[CASE_ID]'' @
           replace p_case_id [TLit ''[CASE_ID]''] (dropWhile is_digit post)"
proof -
  let ?t = "[TLit ''[CASE_ID]'']"
  let ?x = "rev (dropWhile is_upper (rev pre))"
  let ?U = "rev (takeWhile is_upper (rev pre))"
  let ?W = "(?U @ L) @ CHR ''-'' # D @ post"
  have pre: "pre = ?x @ ?U"
    by (metis rev_append rev_rev_ident takeWhile_dropWhile_id)
  have x: "?x = [] \<or> \<not> is_upper (last ?x)"
    using hd_dropWhile[of is_upper "rev pre"] by (auto simp: last_rev)
  have UL: "\<forall>c\<in>set (?U @ L). is_upper c"
    using assms(2) by (auto simp: list_all_iff dest: set_takeWhileD)
  have ULn: "?U @ L \<noteq> []" using assms(1) by simp
  have "hd ?W = hd (?U @ L)" using ULn by (rule hd_append2)
  moreover have "hd (?U @ L) \<in> set (?U @ L)" using ULn by (rule hd_in_set)
  ultimately have W: "?W \<noteq> []" "is_upper (hd ?W)"
    using UL by simp_all
  from assms(4) obtain d D' where D: "D = d # D'" by (cases D) auto
  have dg: "\<forall>c\<in>set D. is_digit c" using assms(3) by (simp add: list_all_iff)
  have tw: "takeWhile is_upper ?W = ?U @ L"
    using UL by (simp only: takeWhile_append2) (simp add: hyphen_not_upper)
  have dw: "dropWhile is_upper ?W = CHR ''-'' # D @ post"
    using UL by (simp only: dropWhile_append2) (simp add: hyphen_not_upper)
  have at: "case_id_at ?W"
    unfolding case_id_at_def tw dw using ULn D dg by simp
  have rest: "case_id_rest ?W = dropWhile is_digit post"
    unfolding case_id_rest_def dw using dg by (simp add: dropWhile_append2)
  from case_id_at_match[OF at, of "[]" "[]"] rest obtain l1 ys
    where m: "ms p_case_id ([], ?W, []) = (l1, dropWhile is_digit post, []) # ys" by auto
  have sh: "length (dropWhile is_digit post) < length ?W"
    using case_id_rest_shorter[OF at] rest by simp
  have e: "pre @ L @ CHR ''-'' # D @ post = ?x @ ?W"
    using pre by (metis append.assoc)
  have "replace_from p_case_id ?t [] (pre @ L @ CHR ''-'' # D @ post)
        = replace_from p_case_id ?t [] (?x @ ?W)"
    by (simp only: e)
  also have "\<dots> = replace_from p_case_id ?t [] ?x @ replace_from p_case_id ?t [] ?W"
    using x W by (rule case_id_split)
  also have "replace_from p_case_id ?t [] ?W
        = ''[CASE_ID]'' @ replace_from p_case_id ?t l1 (dropWhile is_digit post)"
    using replace_from_match[OF m sh, of ?t] by simp
  also have "replace_from p_case_id ?t l1 (dropWhile is_digit post)
        = replace_from p_case_id ?t [] (dropWhile is_digit post)"
    by (rule case_id_left)
  finally show ?thesis unfolding replace_def .
qed

lemma at_word_case: "(case s of [] \<Rightarrow> True | c # _ \<Rightarrow> \<not> is_word c) = (\<not> at_word s)"
  by (cases s) (simp_all add: at_word_def)

lemma at_word_append: "at_word (a @ b) = (if a = [] then at_word b else at_word a)"
  by (cases a) (simp_all add: at_word_def)

lemma at_word_hd: "s \<noteq> [] \<Longrightarrow> at_word s = is_word (hd s)"
  by (cases s) (simp_all add: at_word_def)

lemma long_id_at_match:
  assumes "long_id_at l r"
  shows "\<exists>ys. ms p_long_id (l, r, g) = (rev (takeWhile is_digit r) @ l, dropWhile is_digit r, g) # ys"
proof -
  let ?D = "takeWhile is_digit r"
  let ?R = "dropWhile is_digit r"
  have 1: "list_all is_digit ?D" by (auto simp: list_all_iff dest: set_takeWhileD)
  have 2: "6 \<le> length ?D" "\<not> at_word l" using assms by (simp_all add: long_id_at_def)
  have 3: "case ?R of [] \<Rightarrow> True | c # _ \<Rightarrow> \<not> is_word c"
    using assms by (simp add: at_word_case long_id_at_def)
  from long_id_match[OF 1 2 3, of g] show ?thesis by simp
qed

lemma long_id_at_none:
  assumes "\<not> long_id_at l r"
  shows "ms p_long_id (l, r, g) = []"
proof (rule ccontr)
  let ?N = "Rep 6 None (Cls [Digit])"
  assume "ms p_long_id (l, r, g) \<noteq> []"
  then obtain y where "y \<in> set (ms (Seq WordB (Seq ?N WordB)) (l, r, g))"
    by (cases "ms p_long_id (l, r, g)") (auto simp: p_long_id_def atleast_def digit_def)
  then have "y \<in> set (concat (map (ms (Seq ?N WordB)) (ms WordB (l, r, g))))"
    by (simp only: ms.simps(5))
  then have b1: "at_word l \<noteq> at_word r" and "y \<in> set (ms (Seq ?N WordB) (l, r, g))"
    by (auto simp: ms.simps(12) split: if_splits)
  then have "y \<in> set (concat (map (ms WordB) (ms ?N (l, r, g))))"
    by (simp only: ms.simps(5))
  then obtain z where z: "z \<in> set (ms ?N (l, r, g))" and y: "y \<in> set (ms WordB z)" by auto
  obtain lz rz gz where zz: "z = (lz, rz, gz)" by (cases z)
  from y zz have b2: "at_word lz \<noteq> at_word rz" by (auto simp: ms.simps(12) split: if_splits)
  from ms_fits[OF z, of "[Digit]"] obtain w where w: "consumed (l, r, g) z w" "fits [Digit] ?N w" by blast
  from w(2) have wd: "list_all (in_class [Digit]) w" and wn: "6 \<le> cnt [Digit] w" by (simp_all add: fits_def)
  have len: "6 \<le> length w" using wn cnt_le_length[of "[Digit]" w] by simp
  then have wne: "w \<noteq> []" by auto
  have dg: "\<forall>c\<in>set w. is_digit c" using wd by (simp add: list_all_iff in_class_def)
  from w(1) zz have r: "r = w @ rz" and lz: "lz = rev w @ l" by (simp_all add: consumed_def)
  have "is_digit (last w)" using dg wne by simp
  then have "at_word lz" using lz wne by (cases w rule: rev_cases) (simp_all add: at_word_Cons digit_word)
  with b2 have nz: "\<not> at_word rz" by simp
  then have stop: "rz = [] \<or> \<not> is_digit (hd rz)"
    by (cases rz) (auto simp: at_word_Cons digit_word)
  have tw: "takeWhile is_digit r = w"
    unfolding r using dg stop by (cases rz) (simp_all add: takeWhile_append2)
  have dw: "dropWhile is_digit r = rz"
    unfolding r using dg stop by (cases rz) (simp_all add: dropWhile_append2)
  have "at_word r" unfolding r using wne dg by (cases w) (simp_all add: at_word_Cons digit_word)
  with b1 have "\<not> at_word l" by simp
  with len nz tw dw have "long_id_at l r" by (simp add: long_id_at_def)
  with assms show False by simp
qed

lemma long_id_left:
  "at_word l = at_word l' \<Longrightarrow> replace_from p_long_id t l r = replace_from p_long_id t l' r"
proof (induction r arbitrary: l l' rule: length_induct)
  case (1 r)
  have eq: "long_id_at l r = long_id_at l' r" using 1(2) by (simp add: long_id_at_def)
  show ?case
  proof (cases "long_id_at l r")
    case True
    let ?D = "takeWhile is_digit r"
    let ?R = "dropWhile is_digit r"
    from long_id_at_match[OF True, of "[]"] obtain ys
      where a: "ms p_long_id (l, r, []) = (rev ?D @ l, ?R, []) # ys" by blast
    from True eq have "long_id_at l' r" by simp
    from long_id_at_match[OF this, of "[]"] obtain zs
      where b: "ms p_long_id (l', r, []) = (rev ?D @ l', ?R, []) # zs" by blast
    have D: "?D \<noteq> []" using True by (auto simp: long_id_at_def)
    have sh: "length ?R < length r"
      using D by (metis length_append length_greater_0_conv less_add_same_cancel2 takeWhile_dropWhile_id add.commute)
    have "at_word (rev ?D @ l) = at_word (rev ?D @ l')"
      using D by (cases ?D rule: rev_cases) (simp_all add: at_word_Cons)
    with 1(1) sh have "replace_from p_long_id t (rev ?D @ l) ?R = replace_from p_long_id t (rev ?D @ l') ?R"
      by blast
    then show ?thesis
      using replace_from_match[OF a sh, of t] replace_from_match[OF b sh, of t] by simp
  next
    case False
    with eq have a: "ms p_long_id (l, r, []) = []" "ms p_long_id (l', r, []) = []"
      by (simp_all add: long_id_at_none)
    show ?thesis
    proof (cases r)
      case Nil
      then show ?thesis using a by (simp add: replace_from_Nil)
    next
      case (Cons c r')
      have "at_word (c # l) = at_word (c # l')" by (simp add: at_word_Cons)
      moreover have "length r' < length r" using Cons by simp
      ultimately have "replace_from p_long_id t (c # l) r' = replace_from p_long_id t (c # l') r'"
        using 1(1) by blast
      then show ?thesis using a Cons by (simp add: replace_from_Cons)
    qed
  qed
qed

lemma long_id_starts: "starts p_long_id c = is_digit c"
  by (simp add: p_long_id_def atleast_def digit_def in_class_def)

lemma long_id_not_nullable: "\<not> nullable p_long_id"
  by (simp add: p_long_id_def atleast_def digit_def)

lemma long_id_split:
  assumes "S \<noteq> []" "\<forall>c\<in>set S. \<not> is_digit c" "\<not> is_word (hd S)" "\<not> is_word (last S)"
  shows "replace_from p_long_id t l (A @ S @ B) = replace_from p_long_id t l A @ S @ replace p_long_id t B"
proof (induction A arbitrary: l rule: length_induct)
  case (1 A)
  have W: "S @ B \<noteq> []" "\<not> is_digit (hd (S @ B))"
    using assms(1,2) by (simp_all add: hd_append)
  have tw: "takeWhile is_digit (A @ S @ B) = takeWhile is_digit A"
    using W by (rule takeWhile_stop)
  have dw: "dropWhile is_digit (A @ S @ B) = dropWhile is_digit A @ S @ B"
    using W by (rule dropWhile_stop)
  have "at_word (S @ B) = False" "at_word [] = False"
    using assms(1,3) by (simp_all add: at_word_append at_word_hd at_word_Nil)
  note f = this
  have aw: "at_word (dropWhile is_digit A @ S @ B) = at_word (dropWhile is_digit A)"
  proof (cases "dropWhile is_digit A = []")
    case True
    show ?thesis unfolding True using f by simp
  next
    case False
    then show ?thesis by (simp only: at_word_append[of _ "S @ B"] if_False)
  qed
  have eq: "long_id_at l (A @ S @ B) = long_id_at l A"
    by (simp add: long_id_at_def tw dw aw)
  show ?case
  proof (cases "long_id_at l A")
    case True
    let ?D = "takeWhile is_digit A"
    let ?R = "dropWhile is_digit A"
    from long_id_at_match[OF True, of "[]"] obtain ys
      where a: "ms p_long_id (l, A, []) = (rev ?D @ l, ?R, []) # ys" by blast
    from True eq have "long_id_at l (A @ S @ B)" by simp
    from long_id_at_match[OF this, of "[]"] obtain zs
      where b: "ms p_long_id (l, A @ S @ B, []) = (rev ?D @ l, ?R @ S @ B, []) # zs"
      by (auto simp: tw dw)
    have D: "?D \<noteq> []" using True by (auto simp: long_id_at_def)
    have sh: "length ?R < length A"
      using D by (metis length_append length_greater_0_conv less_add_same_cancel2 takeWhile_dropWhile_id add.commute)
    then have sh2: "length (?R @ S @ B) < length (A @ S @ B)" by simp
    have "replace_from p_long_id t (rev ?D @ l) (?R @ S @ B)
          = replace_from p_long_id t (rev ?D @ l) ?R @ S @ replace p_long_id t B"
      using 1 sh by blast
    then show ?thesis
      using replace_from_match[OF a sh, of t] replace_from_match[OF b sh2, of t] by simp
  next
    case False
    with eq have a: "ms p_long_id (l, A, []) = []" "ms p_long_id (l, A @ S @ B, []) = []"
      by (simp_all add: long_id_at_none)
    show ?thesis
    proof (cases A)
      case Nil
      have "replace_from p_long_id t l (S @ B) = S @ replace_from p_long_id t (rev S @ l) B"
        using long_id_not_nullable assms(2) by (intro replace_from_skip) (simp_all add: long_id_starts)
      moreover have "at_word (rev S @ l) = at_word []"
        using assms(1,4) by (cases S rule: rev_cases) (simp_all add: at_word_def)
      then have "replace_from p_long_id t (rev S @ l) B = replace_from p_long_id t [] B"
        by (rule long_id_left)
      ultimately show ?thesis using Nil a by (simp add: replace_from_Nil replace_def)
    next
      case (Cons c A')
      have "replace_from p_long_id t (c # l) (A' @ S @ B)
            = replace_from p_long_id t (c # l) A' @ S @ replace p_long_id t B"
        using 1 Cons by simp
      then show ?thesis using a Cons by (simp add: replace_from_Cons)
    qed
  qed
qed

lemma mid_split:
  assumes "L \<noteq> []" "list_all is_upper L" "list_all is_digit D" "D \<noteq> []"
  shows "apply_rules rules_mid (pre @ L @ CHR ''-'' # D @ post)
         = apply_rules rules_mid (rev (dropWhile is_upper (rev pre))) @ ''[CASE_ID]'' @
           apply_rules rules_mid (dropWhile is_digit post)"
proof -
  have "replace p_long_id t (A @ ''[CASE_ID]'' @ B)
        = replace p_long_id t A @ ''[CASE_ID]'' @ replace p_long_id t B" for t A B
    unfolding replace_def[of _ _ "A @ ''[CASE_ID]'' @ B"] replace_def[of _ _ A]
    by (rule long_id_split) (simp_all add: is_digit_def is_word_def in_class_def in_range_def)
  then show ?thesis
    by (simp add: rules_mid_def apply_rules_Cons apply_rules_Nil case_id_replace_any[OF assms])
qed

lemma head_empty: "apply_rules rules_head [] = []"
  by code_simp

lemma reversed_mid:
  assumes "list_all is_upper L" "list_all is_digit D" "6 \<le> length D"
  shows "apply_rules (rev rules_mid) (L @ ''-'' @ D) = L @ ''-[ID]''"
proof -
  let ?k = "L @ ''-''"
  have up: "\<forall>c\<in>set L. is_upper c" using assms(1) by (simp add: list_all_iff)
  have dg: "\<forall>c\<in>set D. is_digit c" using assms(2) by (simp add: list_all_iff)
  have "\<not> is_digit CHR ''-''" by (simp add: is_digit_def in_range_def)
  then have k: "\<forall>c\<in>set ?k. \<not> starts p_long_id c"
    using up by (auto simp: long_id_starts upper_not_digit)
  have 1: "replace_from p_long_id [TLit ''[ID]''] [] (?k @ D)
        = ?k @ replace_from p_long_id [TLit ''[ID]''] (rev ?k @ []) D"
    using long_id_not_nullable k by (rule replace_from_skip)
  have tw: "takeWhile is_digit D = D" using dg by (simp add: takeWhile_eq_all_conv)
  have dw: "dropWhile is_digit D = []" using dg by simp
  have "long_id_at (rev ?k) D"
    using assms(3) by (simp add: long_id_at_def tw dw at_word_def is_word_def in_class_def in_range_def)
  from long_id_at_match[OF this, of "[]"] obtain ys
    where m: "ms p_long_id (rev ?k, D, []) = (rev D @ rev ?k, [], []) # ys" by (auto simp: tw dw)
  have "D \<noteq> []" using assms(3) by auto
  then have 2: "replace_from p_long_id [TLit ''[ID]''] (rev ?k) D = ''[ID]''"
    using replace_from_match[OF m, of "[TLit ''[ID]'']"] long_id_not_nullable
    by (simp add: replace_from_end)
  have a: "replace p_long_id [TLit ''[ID]''] (L @ ''-'' @ D) = L @ ''-[ID]''"
    unfolding replace_def using 1 2 by simp
  have "cnt [Digit] L = 0"
    using up by (intro cnt_zero) (auto simp: in_class_def upper_not_digit)
  then have "cnt [Digit] (L @ ''-[ID]'') < need [Digit] p_case_id"
    by (simp add: digits_case_id cnt_append cnt_Cons cnt_Nil in_class_def is_digit_def in_range_def)
  then have b: "replace p_case_id [TLit ''[CASE_ID]''] (L @ ''-[ID]'') = L @ ''-[ID]''"
    by (rule replace_need)
  have r: "rev rules_mid = [(p_long_id, [TLit ''[ID]'']), (p_case_id, [TLit ''[CASE_ID]''])]"
    by (simp add: rules_mid_def)
  have "apply_rules (rev rules_mid) (L @ ''-'' @ D)
        = replace p_case_id [TLit ''[CASE_ID]''] (replace p_long_id [TLit ''[ID]''] (L @ ''-'' @ D))"
    by (simp only: r apply_rules_Cons apply_rules_Nil)
  also have "\<dots> = replace p_case_id [TLit ''[CASE_ID]''] (L @ ''-[ID]'')"
    by (simp only: a)
  also have "\<dots> = L @ ''-[ID]''" by (rule b)
  finally show ?thesis .
qed

text \<open>
  C6. A substring of that shape does not always become the case-identifier placeholder. In
  the first message the substring \<^verbatim>\<open>ABCD-123456789012\<close> is the end of a UUID, and the UUID
  pattern, which runs earlier, replaces the whole of it. In the second the case identifier
  is replaced, and the file-path pattern, which runs later, takes the placeholder as part
  of the path.
\<close>

theorem case_id_taken_by_others:
  "list_all is_upper ''ABCD'' \<and> list_all is_digit ''123456789012'' \<and> 6 \<le> length ''123456789012'' \<and>
   normalizeErrorPattern (JString (''ABCDEFAB-1234-1234-'' @ ''ABCD'' @ ''-'' @ ''123456789012'')) = ''[UUID]'' \<and>
   list_all is_upper ''CO'' \<and> list_all is_digit ''1234567'' \<and> 6 \<le> length ''1234567'' \<and>
   normalizeErrorPattern (JString (''/tmp/'' @ ''CO'' @ ''-'' @ ''1234567'')) = ''[FILE_PATH]''"
  by code_simp


text \<open>
  C6, as amended. Let the message, as the eight replacements before the case-identifier
  pattern leave it, contain upper-case letters, a hyphen and six or more digits, whatever
  stands before and behind. The case-identifier pattern replaces them, together with the
  upper-case letters directly before and the digits directly behind, by its placeholder,
  and the long-number pattern, which runs next, leaves the placeholder alone: the two
  rewrite the text before and the text behind as they would on their own. The later
  patterns get the message in this form. In the reverse order the long-number pattern
  would have replaced the digits and left the letters followed by its own placeholder.
\<close>

theorem case_id_before_long_digits:
  assumes "L \<noteq> []" "list_all is_upper L" "list_all is_digit D" "6 \<le> length D"
    and "apply_rules rules_head m = pre @ L @ ''-'' @ D @ post"
  shows "normalizeErrorPattern (JString m) =
           apply_rules rules_tail
             (apply_rules rules_mid (rev (dropWhile is_upper (rev pre))) @ ''[CASE_ID]'' @
              apply_rules rules_mid (dropWhile is_digit post)) \<and>
         apply_rules (rev rules_mid) (L @ ''-'' @ D) = L @ ''-[ID]''"
proof -
  have D: "D \<noteq> []" using assms(4) by auto
  have "m \<noteq> []" using assms(1,5) head_empty by auto
  then have "normalizeErrorPattern (JString m)
      = apply_rules rules_tail (apply_rules rules_mid (pre @ L @ CHR ''-'' # D @ post))"
    using assms(5) by (simp add: normalizeErrorPattern_def rules_def apply_rules_append)
  then show ?thesis
    using mid_split[OF assms(1-3) D] reversed_mid[OF assms(2-4)] by simp
qed

theorem case_id_before_long_digits_witness:
  "''CO'' \<noteq> [] \<and> list_all is_upper ''CO'' \<and> list_all is_digit ''1234567'' \<and> 6 \<le> length ''1234567'' \<and>
   apply_rules rules_head ''Error: case CO-1234567 failed.'' =
     ''Error: case '' @ ''CO'' @ ''-'' @ ''1234567'' @ '' failed.'' \<and>
   normalizeErrorPattern (JString ''Error: case CO-1234567 failed.'') = ''Error: case [CASE_ID] failed.'' \<and>
   apply_rules (rev rules_mid) (''CO'' @ ''-'' @ ''1234567'') = ''CO'' @ ''-[ID]''"
proof -
  have h: "apply_rules rules_head ''Error: case CO-1234567 failed.'' =
     ''Error: case '' @ ''CO'' @ ''-'' @ ''1234567'' @ '' failed.''"
    by code_simp
  have e: "apply_rules rules_tail
             (apply_rules rules_mid (rev (dropWhile is_upper (rev ''Error: case ''))) @ ''[CASE_ID]'' @
              apply_rules rules_mid (dropWhile is_digit '' failed.'')) = ''Error: case [CASE_ID] failed.''"
    by code_simp
  have u: "list_all is_upper ''CO''" "list_all is_digit ''1234567''"
    by (simp_all add: is_upper_def is_digit_def in_class_def in_range_def)
  from case_id_before_long_digits[OF _ u _ h] e h u show ?thesis by simp
qed


section \<open>Numeric local parts of e-mail addresses\<close>





section \<open>Flag values of query parameters\<close>

































section \<open>Applying the normalizer twice\<close>




section \<open>Exclusive classification\<close>

text \<open>
  C3. A record that has exception class, rule name and rule type is classified as a rule
  failure, whatever its logger name and message are; it is never classified as a logger
  pattern or left unclassified.
\<close>

theorem level_one_exclusive:
  assumes "exceptionClass r = Some e" "ruleName r = Some n" "ruleType r = Some t"
  shows "fst (classify r) = RuleFailure \<and> fst (classify r) \<noteq> LoggerPattern \<and>
         fst (classify r) \<noteq> Unclassified"
  using assms by (simp add: classify_def)

theorem level_one_exclusive_witness:
  "exceptionClass tax_failure = Some ''NullPointerException'' \<and>
   ruleName tax_failure = Some ''CalculateTax'' \<and> ruleType tax_failure = Some ''Activity'' \<and>
   fst (classify tax_failure) = RuleFailure \<and> fst (classify tax_failure) \<noteq> LoggerPattern \<and>
   fst (classify tax_failure) \<noteq> Unclassified"
  using level_one_exclusive[of tax_failure "''NullPointerException''" "''CalculateTax''" "''Activity''"]
  by (simp add: tax_failure_def)

section \<open>Checkpoint safety\<close>

text \<open>
  C7. Two reruns that do not end with the counts of an uninterrupted pass. In the first,
  two records share a timestamp and are read in pages of one record; the pass is aborted
  after the first page is complete, and the rerun, which reads strictly after the
  checkpoint, never reads the second record: its fingerprint has count 0 instead of 1. In
  the second, the timestamps are distinct; the pass is aborted after the first page is
  flushed and before the checkpoint advances, so the rerun reads that page again and the
  additive upsert counts its records twice: 3 instead of 2.
\<close>

theorem abort_changes_counts:
  "sorted (map ts tied_source) \<and>
   counts (run_pass 1 (aborted_pass 1 1 False fresh tied_source) tied_source) ''b'' = 0 \<and>
   counts (run_pass 1 fresh tied_source) ''b'' = 1 \<and>
   sorted_wrt (<) (map ts distinct_source) \<and>
   counts (run_pass 2 (aborted_pass 2 0 True fresh distinct_source) distinct_source) ''a'' = 3 \<and>
   counts (run_pass 2 fresh distinct_source) ''a'' = 2"
  by (simp add: run_pass_def aborted_pass_def window_def pages.simps flush_def advance_def delta_def
      fresh_def tied_source_def distinct_source_def)

text \<open>
  C7, as amended. Let the source be ordered by timestamp and let no record behind the
  place of the abort share the timestamp of a record before it. A pass aborted before the
  flush of a page, followed by a rerun over the same source, ends with the counts of an
  uninterrupted pass: the checkpoint has advanced over the complete pages only, they are
  not read again, and the page that was not flushed had written nothing. A pass aborted
  after the flush of a page and before the advance of the checkpoint is followed by a
  rerun that reads this page again: the counts are those of an uninterrupted pass plus the
  deltas of that page.
\<close>

theorem rerun_after_abort:
  assumes "sorted (map ts src)" "later_after n k st src"
  shows "counts (run_pass n (aborted_pass n k False st src) src) f = counts (run_pass n st src) f \<and>
         counts (run_pass n (aborted_pass n k True st src) src) f =
           counts (run_pass n st src) f +
           delta (concat (take 1 (drop k (pages n (window (checkpoint st) src))))) f"
proof (cases "n = 0")
  case True
  then show ?thesis
    by (simp add: run_pass_def aborted_pass_def pages_zero delta_def)
next
  case False
  then have n: "0 < n" by simp
  let ?w = "window (checkpoint st) src"
  let ?ps = "take k (pages n ?w)"
  let ?qs = "drop k (pages n ?w)"
  let ?c = "run_pages st ?ps"
  have split: "?w = concat ?ps @ concat ?qs"
    using pages_concat[of n ?w] n by (metis append_take_drop_id concat_append)
  have full: "counts (run_pass n st src) f = counts st f + delta (concat ?ps) f + delta (concat ?qs) f"
    using n split by (simp add: run_pass_counts) (metis delta_append add.assoc)
  have c0: "counts ?c f = counts st f + delta (concat ?ps) f"
    by (simp add: run_pages_counts)
  have 1: "counts (run_pass n (aborted_pass n k False st src) src) f = counts (run_pass n st src) f"
    using rerun_counts[OF assms n, of ?c f] c0 full by (simp add: aborted_pass_def Let_def)
  have 2: "counts (run_pass n (aborted_pass n k True st src) src) f =
           counts (run_pass n st src) f + delta (concat (take 1 ?qs)) f"
  proof (cases "k < length (pages n ?w)")
    case True
    let ?s = "flush ?c (pages n ?w ! k)"
    have t1: "take 1 ?qs = [pages n ?w ! k]"
      using True by (simp add: take_Suc_conv_app_nth hd_drop_conv_nth take_Suc)
    have "checkpoint ?s = checkpoint ?c" by (simp add: flush_def)
    from rerun_counts[OF assms n this, of f]
    have "counts (run_pass n ?s src) f = counts ?s f + delta (concat ?qs) f" .
    moreover have "counts ?s f = counts ?c f + delta (pages n ?w ! k) f" by (simp add: flush_def)
    ultimately show ?thesis using True c0 full t1 by (simp add: aborted_pass_def Let_def)
  next
    case False
    then have "take 1 ?qs = []" by simp
    then show ?thesis using False 1 by (simp add: aborted_pass_def Let_def delta_def)
  qed
  from 1 2 show ?thesis by blast
qed

theorem rerun_after_abort_witness:
  "sorted (map ts distinct_source) \<and> later_after 2 1 fresh distinct_source \<and>
   counts (run_pass 2 (aborted_pass 2 1 False fresh distinct_source) distinct_source) ''a''
     = counts (run_pass 2 fresh distinct_source) ''a'' \<and>
   counts (run_pass 2 (aborted_pass 2 1 True fresh distinct_source) distinct_source) ''a''
     = counts (run_pass 2 fresh distinct_source) ''a'' +
       delta (concat (take 1 (drop 1 (pages 2 (window (checkpoint fresh) distinct_source))))) ''a''"
  using rerun_after_abort[of distinct_source 2 1 fresh "''a''"]
  by (simp add: distinct_source_def later_after_def fresh_def window_def pages.simps)

section \<open>The status selectors\<close>




end
